theory Spec2Isabelle
  imports Main "HOL-Library.Multiset"
begin

section \<open>The filter stage of bkunifylogbeat (task/filter/filter.go)\<close>

text \<open>
  A shallow embedding of \<^verbatim>\<open>task/filter/filter.go\<close>. Go strings are byte strings
  (\<open>string\<close>, a \<open>char list\<close>); Go's \<^verbatim>\<open>int\<close> is modelled by \<open>int\<close>, with the single
  addition of the file that can leave the 64-bit range (\<^verbatim>\<open>f.filterMaxIndex+1\<close>) wrapped
  explicitly by \<open>int64\<close>; Go maps are partial functions, the order of a \<^verbatim>\<open>range\<close>
  over a map being a parameter (the runtime chooses it).
\<close>

subsection \<open>The functions of Go's package strings that the file calls\<close>

text \<open>
  \<^verbatim>\<open>strings.Index(s, substr)\<close>: the position of the first occurrence of \<open>substr\<close> in
  \<open>s\<close>; \<open>None\<close> stands for the result \<^verbatim>\<open>-1\<close>.
\<close>

fun Index_str :: "string \<Rightarrow> string \<Rightarrow> nat option" where
  "Index_str [] substr = (if substr = [] then Some 0 else None)"
| "Index_str (c # cs) substr =
     (if take (length substr) (c # cs) = substr then Some 0
      else map_option Suc (Index_str cs substr))"

text \<open>\<^verbatim>\<open>strings.Contains(s, substr)\<close> is \<^verbatim>\<open>Index(s, substr) >= 0\<close>.\<close>

definition Contains :: "string \<Rightarrow> string \<Rightarrow> bool" where
  "Contains s substr = (Index_str s substr \<noteq> None)"

text \<open>
  \<^verbatim>\<open>strings.Count(s, substr)\<close>: the number of non-overlapping occurrences; for an empty
  \<open>substr\<close> Go returns the number of code points plus one (here: of bytes, which is
  the same for ASCII text; \<open>Run\<close> never splits by an empty delimiter).
\<close>

lemma Index_str_bound:
  "Index_str s substr = Some i \<Longrightarrow> i + length substr \<le> length s"
proof (induction s arbitrary: i)
  case Nil
  then show ?case by (simp split: if_splits)
next
  case (Cons c cs)
  show ?case
  proof (cases "take (length substr) (c # cs) = substr")
    case True
    then have "length (take (length substr) (c # cs)) = length substr"
      by simp
    then have "length substr \<le> length (c # cs)"
      unfolding length_take by linarith
    with True Cons.prems show ?thesis by simp
  next
    case False
    with Cons.prems obtain j where "Index_str cs substr = Some j" "i = Suc j"
      by auto
    with Cons.IH show ?thesis by fastforce
  qed
qed

function Count :: "string \<Rightarrow> string \<Rightarrow> nat" where
  "Count s substr =
     (if substr = [] then length s + 1
      else case Index_str s substr of
             None \<Rightarrow> 0
           | Some i \<Rightarrow> Suc (Count (drop (i + length substr) s) substr))"
  by pat_completeness auto
termination
proof (relation "measure (\<lambda>(s, substr). length s)")
  show "wf (measure (\<lambda>(s, substr). length s))" by simp
next
  fix s substr :: string and i :: nat
  assume ne: "substr \<noteq> []" and ix: "Index_str s substr = Some i"
  from Index_str_bound [OF ix] ne have "0 < i + length substr" "i + length substr \<le> length s"
    by simp_all
  then have "length s - (i + length substr) < length s"
    by arith
  then show "((drop (i + length substr) s, substr), (s, substr))
      \<in> measure (\<lambda>(s, substr). length s)"
    by simp
qed

declare Count.simps [simp del]

text \<open>
  The loop of \<^verbatim>\<open>genSplit\<close>: at most \<open>k\<close> more cuts at the first occurrence of
  \<open>sep\<close>; the last element is what is left of \<open>s\<close>.
\<close>

fun splitLoop :: "nat \<Rightarrow> string \<Rightarrow> string \<Rightarrow> string list" where
  "splitLoop 0 s sep = [s]"
| "splitLoop (Suc k) s sep =
     (case Index_str s sep of
        None \<Rightarrow> [s]
      | Some m \<Rightarrow> take m s # splitLoop k (drop (m + length sep) s) sep)"

text \<open>
  \<^verbatim>\<open>strings.SplitN(s, sep, n)\<close> (\<^verbatim>\<open>genSplit(s, sep, 0, n)\<close>): \<open>n = 0\<close> gives no
  element, \<open>n < 0\<close> every substring (\<open>n\<close> becomes \<open>Count s sep + 1\<close>), an \<open>n\<close>
  beyond \<open>len(s) + 1\<close> is cut down to it, and the loop then makes at most \<open>n - 1\<close> cuts.
  For an empty \<open>sep\<close> Go explodes \<open>s\<close> into at most \<open>n\<close> code points (here: bytes).
\<close>

fun explode :: "string \<Rightarrow> nat \<Rightarrow> string list" where
  "explode [] n = []"
| "explode (c # cs) n =
     (if n = 1 \<or> cs = [] then [c # cs] else [c] # explode cs (n - 1))"

definition SplitN :: "string \<Rightarrow> string \<Rightarrow> int \<Rightarrow> string list" where
  "SplitN s sep n =
     (if n = 0 then []
      else if sep = [] then explode s (if n < 0 then length s + 1 else nat n)
      else let n1 = (if n < 0 then int (Count s sep) + 1 else n);
               n2 = (if n1 > int (length s) + 1 then int (length s) + 1 else n1)
           in splitLoop (nat (n2 - 1)) s sep)"

text \<open>\<^verbatim>\<open>strings.Join(elems, sep)\<close>, used to state what a split is.\<close>

fun Join :: "string list \<Rightarrow> string \<Rightarrow> string" where
  "Join [] sep = []"
| "Join [x] sep = x"
| "Join (x # y # ys) sep = x @ sep @ Join (y # ys) sep"

subsection \<open>The configuration (package config) and the operator catalogue\<close>

text \<open>
  \<^verbatim>\<open>config.TaskConfig\<close> and its parts are declared outside the file; the fields are the
  ones the file reads. \<^verbatim>\<open>getOperation\<close> (the operator catalogue) is not in the file
  either: it is a parameter \<open>getOperation\<close> of the functions that call it, \<open>None\<close>
  being the \<^verbatim>\<open>nil\<close> function of an unknown operator.
\<close>

record Condition =
  Index :: int
  Key :: string
  Op :: string

record FilterConfig =
  Conditions :: "Condition list"

record TaskConfig =
  FilterID :: string
  ProcessorID :: string
  Delimiter :: string
  HasFilter :: bool
  Filters :: "FilterConfig list"

type_synonym operation = "string \<Rightarrow> string \<Rightarrow> bool"

type_synonym catalog = "string \<Rightarrow> operation option"

subsection \<open>Handle\<close>

text \<open>
  The body of the inner loop of \<^verbatim>\<open>Handle\<close> for one condition: \<open>True\<close> when the
  loop goes on to the next condition, \<open>False\<close> when it sets \<^verbatim>\<open>access = false\<close> and
  breaks. The read \<^verbatim>\<open>words[condition.Index-1]\<close> is in range where it is reached
  (\<open>1 \<le> Index \<le> len(words)\<close>).
\<close>

definition checkCondition :: "catalog \<Rightarrow> string list \<Rightarrow> string \<Rightarrow> Condition \<Rightarrow> bool" where
  "checkCondition getOperation words text condition =
     (if Index condition \<le> 0 then Contains text (Key condition)
      else case getOperation (Op condition) of
             None \<Rightarrow> True
           | Some operationFunc \<Rightarrow>
               if int (length words) < Index condition then False
               else operationFunc (words ! nat (Index condition - 1)) (Key condition))"

text \<open>The inner loop: the value of \<^verbatim>\<open>access\<close> when the loop is left.\<close>

fun checkConditions :: "catalog \<Rightarrow> string list \<Rightarrow> string \<Rightarrow> Condition list \<Rightarrow> bool" where
  "checkConditions getOperation words text [] = True"
| "checkConditions getOperation words text (condition # rest) =
     (if checkCondition getOperation words text condition
      then checkConditions getOperation words text rest
      else False)"

text \<open>The outer loop over \<^verbatim>\<open>taskConfig.Filters\<close>; \<open>None\<close> is the \<^verbatim>\<open>nil\<close> event.\<close>

fun handleGroups ::
  "catalog \<Rightarrow> string list \<Rightarrow> string \<Rightarrow> FilterConfig list \<Rightarrow> 'e \<Rightarrow> 'e option" where
  "handleGroups getOperation words text [] event = None"
| "handleGroups getOperation words text (filterConfig # rest) event =
     (if checkConditions getOperation words text (Conditions filterConfig)
      then Some event
      else handleGroups getOperation words text rest event)"

definition Handle ::
  "catalog \<Rightarrow> string list \<Rightarrow> string \<Rightarrow> TaskConfig \<Rightarrow> 'e \<Rightarrow> 'e option" where
  "Handle getOperation words text taskConfig event =
     (if \<not> HasFilter taskConfig then Some event
      else handleGroups getOperation words text (Filters taskConfig) event)"

subsection \<open>The filter instance and MergeFilterConfig\<close>

text \<open>
  \<^verbatim>\<open>Filters\<close> embeds \<^verbatim>\<open>*base.Node\<close>, declared outside the file; \<open>ID\<close>, \<open>Outs\<close> and
  \<open>TaskNodeList\<close> are the fields of the node that the file reads (its channels \<^verbatim>\<open>In\<close>
  and \<^verbatim>\<open>End\<close> appear below as what a \<^verbatim>\<open>select\<close> receives). \<open>'c\<close> is the type of a
  downstream channel, \<open>'t\<close> of a task node.
\<close>

record ('c, 't) Filters =
  ID :: string
  Outs :: "string \<rightharpoonup> 'c"
  TaskNodeList :: "string \<rightharpoonup> 't list"
  Delimiter :: string
  filterMaxIndex :: int
  taskConfigMaps :: "string \<rightharpoonup> TaskConfig"

text \<open>The loop of \<^verbatim>\<open>MergeFilterConfig\<close> over \<^verbatim>\<open>taskCfg.Filters\<close>, on the field \<^verbatim>\<open>filterMaxIndex\<close>.\<close>

fun mergeMaxIndex :: "int \<Rightarrow> FilterConfig list \<Rightarrow> int" where
  "mergeMaxIndex cur [] = cur"
| "mergeMaxIndex cur (filConfig # rest) =
     (if Conditions filConfig \<noteq> [] then
        (let maxIndex = Index (last (Conditions filConfig))
         in mergeMaxIndex (if cur < maxIndex then maxIndex else cur) rest)
      else mergeMaxIndex cur rest)"

definition MergeFilterConfig :: "TaskConfig \<Rightarrow> ('c, 't) Filters \<Rightarrow> ('c, 't) Filters" where
  "MergeFilterConfig taskCfg f =
     (let f1 = (if HasFilter taskCfg
                then f\<lparr>filterMaxIndex := mergeMaxIndex (filterMaxIndex f) (TaskConfig.Filters taskCfg)\<rparr>
                else f)
      in f1\<lparr>taskConfigMaps := (taskConfigMaps f1)(ProcessorID taskCfg \<mapsto> taskCfg)\<rparr>)"

text \<open>Merging one configuration after the other, the first of the list first.\<close>

definition mergeAll :: "TaskConfig list \<Rightarrow> ('c, 't) Filters \<Rightarrow> ('c, 't) Filters" where
  "mergeAll cfgs f = fold MergeFilterConfig cfgs f"

text \<open>
  The instance that \<^verbatim>\<open>NewFilters\<close> allocates, before its first merge: the node of
  \<^verbatim>\<open>base.NewEmptyNode\<close> has no output yet, and \<^verbatim>\<open>filterMaxIndex\<close> has Go's zero value.
\<close>

definition emptyFilters :: "TaskConfig \<Rightarrow> ('c, 't) Filters" where
  "emptyFilters taskCfg =
     \<lparr>ID = FilterID taskCfg, Outs = Map.empty, TaskNodeList = Map.empty,
      Delimiter = TaskConfig.Delimiter taskCfg, filterMaxIndex = 0,
      taskConfigMaps = Map.empty\<rparr>"

text \<open>
  The indices that the specification's sentence on the merge speaks of: of every rule
  group of a configuration, the index of its last condition. Following the words of the
  specification, not the code.
\<close>

definition specLastIndices :: "TaskConfig list \<Rightarrow> int list" where
  "specLastIndices cfgs =
     concat (map (\<lambda>cfg. map (\<lambda>g. Index (last (Conditions g)))
                           (filter (\<lambda>g. Conditions g \<noteq> []) (TaskConfig.Filters cfg))) cfgs)"

definition specMaxIndex :: "TaskConfig list \<Rightarrow> int" where
  "specMaxIndex cfgs = Max (set (specLastIndices cfgs))"

text \<open>The same indices for the configurations that have \<^verbatim>\<open>HasFilter\<close> set.\<close>

definition lastIndices :: "TaskConfig list \<Rightarrow> int list" where
  "lastIndices cfgs = specLastIndices (filter HasFilter cfgs)"

subsection \<open>Run: what the loop does with one event\<close>

text \<open>
  An event (\<^verbatim>\<open>util.Data\<close> with its \<^verbatim>\<open>beat.Event\<close>) carries a map of fields; the value
  of a field is a string or something else.
\<close>

datatype field_value = StringVal string | OtherVal

record Event =
  Fields :: "string \<rightharpoonup> field_value"

record Data =
  Event :: Event

text \<open>
  \<^verbatim>\<open>text, ok = event.Fields["data"].(string)\<close>: the type assertion with its flag; a
  missing field and a field that is no string give \<^verbatim>\<open>""\<close> and \<^verbatim>\<open>false\<close>.
\<close>

definition dataText :: "Data \<Rightarrow> string \<times> bool" where
  "dataText data =
     (case Fields (Event data) ''data'' of
        Some (StringVal s) \<Rightarrow> (s, True)
      | _ \<Rightarrow> ([], False))"

text \<open>
  What the loop changes outside the instance: the sends it has completed (channel and
  value, the oldest first) and the counters. \<^verbatim>\<open>CrawlerDropped\<close> is the counter of
  package base, \<open>nodeCrawlerDropped\<close> the counter of each task node. The counters
  are kept as unbounded integers: no property below depends on their range.
\<close>

record ('c, 't) world =
  sent :: "('c \<times> Data) list"
  filterHandledTotal :: int
  filterDroppedTotal :: int
  CrawlerDropped :: int
  nodeCrawlerDropped :: "'t \<Rightarrow> int"

text \<open>
  A \<^verbatim>\<open>select\<close> between \<^verbatim>\<open>case <-f.End\<close> and \<^verbatim>\<open>case out <- data\<close> blocks until one
  of the two can run, and runs one of them. Which one is not the program's choice: the
  \<open>i\<close>-th such \<^verbatim>\<open>select\<close> of the processing of an event runs the case \<open>sel i\<close>.
\<close>

datatype select_case = RecvEnd | SendOut

definition send :: "'c \<Rightarrow> Data \<Rightarrow> ('c, 't) world \<Rightarrow> ('c, 't) world" where
  "send out data w =
     w\<lparr>sent := sent w @ [(out, data)], filterHandledTotal := filterHandledTotal w + 1\<rparr>"

text \<open>
  The loop \<^verbatim>\<open>for _, out := range f.Outs\<close> of the unfiltered branch, over the channels
  in the order of the iteration. The flag of the result says that \<open>Run\<close> has returned.
\<close>

fun sendAll ::
  "(nat \<Rightarrow> select_case) \<Rightarrow> nat \<Rightarrow> 'c list \<Rightarrow> Data \<Rightarrow> ('c, 't) world \<Rightarrow> bool \<times> ('c, 't) world" where
  "sendAll sel i [] data w = (False, w)"
| "sendAll sel i (out # outs) data w =
     (case sel i of
        RecvEnd \<Rightarrow> (True, w)
      | SendOut \<Rightarrow> sendAll sel (Suc i) outs data (send out data w))"

text \<open>The block that updates the metrics of a dropped event.\<close>

definition dropped :: "('c, 't) Filters \<Rightarrow> string \<Rightarrow> ('c, 't) world \<Rightarrow> ('c, 't) world" where
  "dropped f processorID w =
     (let w1 = w\<lparr>filterDroppedTotal := filterDroppedTotal w + 1\<rparr>
      in case TaskNodeList f processorID of
           None \<Rightarrow> w1
         | Some taskNodeList \<Rightarrow>
             fold (\<lambda>tNode w2.
                     w2\<lparr>CrawlerDropped := CrawlerDropped w2 + 1,
                        nodeCrawlerDropped :=
                          (nodeCrawlerDropped w2)(tNode := nodeCrawlerDropped w2 tNode + 1)\<rparr>)
                  taskNodeList w1)"

text \<open>
  The loop \<^verbatim>\<open>for processorID, taskConfig := range f.taskConfigMaps\<close> of the filtered
  branch, over the entries in the order of the iteration.
\<close>

fun dispatchAll ::
  "catalog \<Rightarrow> (nat \<Rightarrow> select_case) \<Rightarrow> nat \<Rightarrow> ('c, 't) Filters \<Rightarrow> string list \<Rightarrow> string \<Rightarrow>
   (string \<times> TaskConfig) list \<Rightarrow> Data \<Rightarrow> ('c, 't) world \<Rightarrow> bool \<times> ('c, 't) world" where
  "dispatchAll getOperation sel i f words text [] data w = (False, w)"
| "dispatchAll getOperation sel i f words text ((processorID, taskConfig) # rest) data w =
     (case Handle getOperation words text taskConfig (Event data) of
        None \<Rightarrow> dispatchAll getOperation sel i f words text rest data (dropped f processorID w)
      | Some event \<Rightarrow>
          (case Outs f processorID of
             None \<Rightarrow> dispatchAll getOperation sel i f words text rest data w
           | Some out \<Rightarrow>
               (case sel i of
                  RecvEnd \<Rightarrow> (True, w)
                | SendOut \<Rightarrow>
                    dispatchAll getOperation sel (Suc i) f words text rest data
                      (send out data w))))"

text \<open>The entries of a Go map in the order \<open>ks\<close> of its keys that a \<^verbatim>\<open>range\<close> takes.\<close>

definition rangeMap :: "('k \<rightharpoonup> 'v) \<Rightarrow> 'k list \<Rightarrow> ('k \<times> 'v) list" where
  "rangeMap m ks = List.map_filter (\<lambda>k. map_option (\<lambda>v. (k, v)) (m k)) ks"

text \<open>Go's 64-bit \<^verbatim>\<open>int\<close>: the value of an arithmetic result after wrap-around.\<close>

definition int64 :: "int \<Rightarrow> int" where
  "int64 x = (x + 2 ^ 63) mod 2 ^ 64 - 2 ^ 63"

text \<open>\<^verbatim>\<open>words := strings.SplitN(text, f.Delimiter, f.filterMaxIndex+1)\<close>\<close>

definition splitWords :: "('c, 't) Filters \<Rightarrow> string \<Rightarrow> string list" where
  "splitWords f text = SplitN text (Filters.Delimiter f) (int64 (filterMaxIndex f + 1))"

text \<open>
  The case \<^verbatim>\<open>e := <-f.In\<close> of the loop of \<open>Run\<close>: \<open>outsOrder\<close> and \<open>cfgOrder\<close> are
  the orders in which the two \<^verbatim>\<open>range\<close> loops take the keys of \<open>Outs\<close> and of
  \<open>taskConfigMaps\<close>. The flag of the result says that \<open>Run\<close> has returned (it saw
  \<^verbatim>\<open>f.End\<close> in a \<^verbatim>\<open>select\<close>); otherwise the loop waits for the next event.
\<close>

definition handleEvent ::
  "catalog \<Rightarrow> (nat \<Rightarrow> select_case) \<Rightarrow> string list \<Rightarrow> string list \<Rightarrow> ('c, 't) Filters \<Rightarrow>
   Data \<Rightarrow> ('c, 't) world \<Rightarrow> bool \<times> ('c, 't) world" where
  "handleEvent getOperation sel outsOrder cfgOrder f data w =
     (let (text, ok) = dataText data
      in if \<not> ok \<or> Filters.Delimiter f = []
         then sendAll sel 0 (map snd (rangeMap (Outs f) outsOrder)) data w
         else dispatchAll getOperation sel 0 f (splitWords f text) text
                (rangeMap (taskConfigMaps f) cfgOrder) data w)"

subsection \<open>The registry: GetFilters, NewFilters, RemoveFilter\<close>

text \<open>
  The package's variables. \<^verbatim>\<open>filterMaps\<close> holds pointers: \<open>instances\<close> is the store
  of the allocated \<^verbatim>\<open>Filters\<close> values by address, \<open>nextAddr\<close> the next free address
  and \<open>started\<close> the instances whose \<open>Run\<close> has been started with \<^verbatim>\<open>go\<close>, the
  oldest first.
\<close>

record ('c, 't) registry =
  instances :: "nat \<rightharpoonup> ('c, 't) Filters"
  nextAddr :: nat
  started :: "nat list"
  filterMaps :: "string \<rightharpoonup> nat"
  numOfFilterTotal :: int

text \<open>
  The node of a processor (\<^verbatim>\<open>p.Node\<close>, a \<^verbatim>\<open>*base.Node\<close>): its identifier and its
  inbound channel. \<^verbatim>\<open>processor.GetProcessors\<close> and \<^verbatim>\<open>processor.NewProcessors\<close> are
  outside the file: they are parameters, and return an error or the node.
\<close>

record 'c Node =
  nodeID :: string
  nodeIn :: 'c

type_synonym ('c, 't, 'x) processors = "TaskConfig \<Rightarrow> 't \<Rightarrow> 'x + 'c Node"

text \<open>
  Modelled from the spec: \<^verbatim>\<open>AddOutput\<close> is a method of \<^verbatim>\<open>base.Node\<close>, outside the file.
  The specification keeps the downstream endpoints keyed by the consumer's identifier,
  and they accumulate.
\<close>

definition AddOutput :: "'c Node \<Rightarrow> ('c, 't) Filters \<Rightarrow> ('c, 't) Filters" where
  "AddOutput node f = f\<lparr>Outs := (Outs f)(nodeID node \<mapsto> nodeIn node)\<rparr>"

text \<open>
  Modelled from the spec: \<^verbatim>\<open>AddTaskNode\<close> is a method of \<^verbatim>\<open>base.Node\<close>, outside the
  file. The specification attaches with the endpoint a per-owner handle for the
  accounting of drops; \<open>Run\<close> reads the handles of a consumer as a collection.
\<close>

definition AddTaskNode :: "'c Node \<Rightarrow> 't \<Rightarrow> ('c, 't) Filters \<Rightarrow> ('c, 't) Filters" where
  "AddTaskNode node taskNode f =
     f\<lparr>TaskNodeList :=
          (TaskNodeList f)(nodeID node \<mapsto>
             (case TaskNodeList f (nodeID node) of None \<Rightarrow> [] | Some l \<Rightarrow> l) @ [taskNode])\<rparr>"

text \<open>The first block of \<^verbatim>\<open>GetFilters\<close>, under the read lock: the lookup.\<close>

definition lookupFilter :: "('c, 't) registry \<Rightarrow> TaskConfig \<Rightarrow> nat option" where
  "lookupFilter reg taskCfg = filterMaps reg (FilterID taskCfg)"

definition NewFilters ::
  "('c, 't, 'x) processors \<Rightarrow> TaskConfig \<Rightarrow> 't \<Rightarrow> ('c, 't) registry \<Rightarrow>
   ('x + nat) \<times> ('c, 't) registry" where
  "NewFilters NewProcessors taskCfg taskNode reg =
     (let fil = MergeFilterConfig taskCfg (emptyFilters taskCfg)
      in case NewProcessors taskCfg taskNode of
           Inl err \<Rightarrow> (Inl err, reg)
         | Inr p \<Rightarrow>
             (let fil1 = AddTaskNode p taskNode (AddOutput p fil);
                  a = nextAddr reg
              in (Inr a,
                  reg\<lparr>instances := (instances reg)(a \<mapsto> fil1),
                      nextAddr := Suc a,
                      started := started reg @ [a],
                      filterMaps := (filterMaps reg)(FilterID taskCfg \<mapsto> a),
                      numOfFilterTotal := numOfFilterTotal reg + 1\<rparr>)))"

text \<open>
  The rest of \<^verbatim>\<open>GetFilters\<close>, after the lookup has given \<open>found\<close> (\<^verbatim>\<open>fil, ok\<close>). A
  pointer of \<^verbatim>\<open>filterMaps\<close> is the address of an allocated instance.
\<close>

definition afterLookup ::
  "('c, 't, 'x) processors \<Rightarrow> ('c, 't, 'x) processors \<Rightarrow> nat option \<Rightarrow> TaskConfig \<Rightarrow> 't \<Rightarrow>
   ('c, 't) registry \<Rightarrow> ('x + nat) \<times> ('c, 't) registry" where
  "afterLookup GetProcessors NewProcessors found taskCfg taskNode reg =
     (case found of
        Some a \<Rightarrow>
          (case GetProcessors taskCfg taskNode of
             Inl err \<Rightarrow> (Inl err, reg)
           | Inr p \<Rightarrow>
               (Inr a,
                reg\<lparr>instances :=
                      (case instances reg a of
                         None \<Rightarrow> instances reg
                       | Some fil \<Rightarrow>
                           (instances reg)(a \<mapsto>
                              AddTaskNode p taskNode
                                (AddOutput p (MergeFilterConfig taskCfg fil))))\<rparr>))
      | None \<Rightarrow> NewFilters NewProcessors taskCfg taskNode reg)"

definition GetFilters ::
  "('c, 't, 'x) processors \<Rightarrow> ('c, 't, 'x) processors \<Rightarrow> TaskConfig \<Rightarrow> 't \<Rightarrow>
   ('c, 't) registry \<Rightarrow> ('x + nat) \<times> ('c, 't) registry" where
  "GetFilters GetProcessors NewProcessors taskCfg taskNode reg =
     afterLookup GetProcessors NewProcessors (lookupFilter reg taskCfg) taskCfg taskNode reg"

definition RemoveFilter :: "string \<Rightarrow> ('c, 't) registry \<Rightarrow> ('c, 't) registry" where
  "RemoveFilter id' reg =
     reg\<lparr>filterMaps := (filterMaps reg)(id' := None),
         numOfFilterTotal := numOfFilterTotal reg - 1\<rparr>"

text \<open>
  \<^verbatim>\<open>defer RemoveFilter(f.ID)\<close>: what the \<open>Run\<close> of the instance at address \<open>a\<close> does
  when it returns.
\<close>

definition runExit :: "nat \<Rightarrow> ('c, 't) registry \<Rightarrow> ('c, 't) registry" where
  "runExit a reg =
     (case instances reg a of
        None \<Rightarrow> reg
      | Some f \<Rightarrow> RemoveFilter (ID f) reg)"

text \<open>The calls of \<^verbatim>\<open>GetFilters\<close> of a list of consumers, one after the other.\<close>

fun getFiltersSeq ::
  "('c, 't, 'x) processors \<Rightarrow> ('c, 't, 'x) processors \<Rightarrow> (TaskConfig \<times> 't) list \<Rightarrow>
   ('c, 't) registry \<Rightarrow> ('x + nat) list \<times> ('c, 't) registry" where
  "getFiltersSeq GetProcessors NewProcessors [] reg = ([], reg)"
| "getFiltersSeq GetProcessors NewProcessors ((taskCfg, taskNode) # rest) reg =
     (let (r, reg1) = GetFilters GetProcessors NewProcessors taskCfg taskNode reg;
          (rs, reg2) = getFiltersSeq GetProcessors NewProcessors rest reg1
      in (r # rs, reg2))"

text \<open>
  Two calls of \<open>GetFilters\<close> by two goroutines that overlap: the lookup of each call
  is one step (the read lock is held for it alone, and released before anything else
  is done), and both lookups run before either call goes on; the rest of the first call
  then runs before the rest of the second.
\<close>

definition getFiltersRace ::
  "('c, 't, 'x) processors \<Rightarrow> ('c, 't, 'x) processors \<Rightarrow> TaskConfig \<Rightarrow> 't \<Rightarrow> TaskConfig \<Rightarrow> 't \<Rightarrow>
   ('c, 't) registry \<Rightarrow> (('x + nat) \<times> ('x + nat)) \<times> ('c, 't) registry" where
  "getFiltersRace GetProcessors NewProcessors taskCfg1 taskNode1 taskCfg2 taskNode2 reg =
     (let found1 = lookupFilter reg taskCfg1;
          found2 = lookupFilter reg taskCfg2;
          (r1, reg1) = afterLookup GetProcessors NewProcessors found1 taskCfg1 taskNode1 reg;
          (r2, reg2) = afterLookup GetProcessors NewProcessors found2 taskCfg2 taskNode2 reg1
      in ((r1, r2), reg2))"

subsection \<open>Auxiliary notions and concrete inputs\<close>

text \<open>A catalogue with the single operator \<open>eq\<close> (equality of the two strings).\<close>

definition eqCatalog :: catalog where
  "eqCatalog op = (if op = ''eq'' then Some (\<lambda>a b. a = b) else None)"

definition cond :: "int \<Rightarrow> string \<Rightarrow> string \<Rightarrow> Condition" where
  "cond i op k = \<lparr>Index = i, Key = k, Op = op\<rparr>"

definition ruleSet :: "string \<Rightarrow> bool \<Rightarrow> Condition list list \<Rightarrow> TaskConfig" where
  "ruleSet pid has groups =
     \<lparr>FilterID = ''f'', ProcessorID = pid, Delimiter = '','', HasFilter = has,
      Filters = map (\<lambda>cs. \<lparr>Conditions = cs\<rparr>) groups\<rparr>"

text \<open>The last indices of the non-empty groups of one configuration.\<close>

definition groupLastIndices :: "FilterConfig list \<Rightarrow> int list" where
  "groupLastIndices gs = map (\<lambda>g. Index (last (Conditions g))) (filter (\<lambda>g. Conditions g \<noteq> []) gs)"

text \<open>Three configurations of one filter, the second without \<open>HasFilter\<close>.\<close>

definition mergeExample :: "TaskConfig list" where
  "mergeExample =
     [ruleSet ''p'' True [[cond 1 ''eq'' ''a'', cond 3 ''eq'' ''c''], [cond 0 ''eq'' ''E'']],
      ruleSet ''q'' False [[cond 9 ''eq'' ''z'']],
      ruleSet ''r'' True [[cond 2 ''eq'' ''b'']]]"

text \<open>The number of sends that complete before a \<^verbatim>\<open>select\<close> receives from \<^verbatim>\<open>f.End\<close>.\<close>

definition sendsBeforeEnd :: "(nat \<Rightarrow> select_case) \<Rightarrow> nat \<Rightarrow> nat \<Rightarrow> nat" where
  "sendsBeforeEnd sel i n = length (takeWhile (\<lambda>k. sel k = SendOut) [i..<i + n])"

text \<open>A world with nothing sent and every counter at 0.\<close>

definition world0 :: "(nat, nat) world" where
  "world0 = \<lparr>sent = [], filterHandledTotal = 0, filterDroppedTotal = 0, CrawlerDropped = 0,
             nodeCrawlerDropped = (\<lambda>t. 0)\<rparr>"

text \<open>
  What \<open>GetFilters\<close> does to an instance that it has found, for a consumer whose
  processor has the channel \<open>c\<close>; and the instance that \<open>NewFilters\<close> builds for a
  first consumer.
\<close>

definition attach :: "TaskConfig \<Rightarrow> 'c \<Rightarrow> 't \<Rightarrow> ('c, 't) Filters \<Rightarrow> ('c, 't) Filters" where
  "attach cfg c t f =
     AddTaskNode \<lparr>nodeID = ProcessorID cfg, nodeIn = c\<rparr> t
       (AddOutput \<lparr>nodeID = ProcessorID cfg, nodeIn = c\<rparr> (MergeFilterConfig cfg f))"

definition instanceOf :: "TaskConfig \<Rightarrow> 'c \<Rightarrow> 't \<Rightarrow> ('c, 't) Filters" where
  "instanceOf cfg c t = attach cfg c t (emptyFilters cfg)"

text \<open>An event whose field \<open>data\<close> is the line \<open>s\<close>, and an event without that field.\<close>

definition lineEvent :: "string \<Rightarrow> Data" where
  "lineEvent s = \<lparr>Event = \<lparr>Fields = [''data'' \<mapsto> StringVal s]\<rparr>\<rparr>"

definition noLineEvent :: Data where
  "noLineEvent = \<lparr>Event = \<lparr>Fields = [''other'' \<mapsto> StringVal ''x'']\<rparr>\<rparr>"

text \<open>
  The instance of two consumers: \<open>p\<close> (channel 1, task node 10) asks for \<open>A\<close> in
  column 1, \<open>q\<close> (channel 2, task node 20) has no filter.
\<close>

definition twoOutputs :: "(nat, nat) Filters" where
  "twoOutputs =
     attach (ruleSet ''q'' False []) 2 20
       (instanceOf (ruleSet ''p'' True [[cond 1 ''eq'' ''A'']]) 1 10)"

text \<open>The effect of the calls of a list of consumers on an instance that is found.\<close>

definition attachAll ::
  "(TaskConfig \<Rightarrow> 'c) \<Rightarrow> (TaskConfig \<times> 't) list \<Rightarrow> ('c, 't) Filters \<Rightarrow> ('c, 't) Filters" where
  "attachAll chan calls f = fold (\<lambda>(cfg, t). attach cfg (chan cfg) t) calls f"

text \<open>Processors that are built without error, with the channel \<open>chan cfg\<close>.\<close>

definition okProcessors :: "(TaskConfig \<Rightarrow> 'c) \<Rightarrow> ('c, 't, unit) processors" where
  "okProcessors chan cfg t = Inr \<lparr>nodeID = ProcessorID cfg, nodeIn = chan cfg\<rparr>"

text \<open>The registry of a process that has built no filter yet.\<close>

definition registry0 :: "(string, nat) registry" where
  "registry0 = \<lparr>instances = Map.empty, nextAddr = 0, started = [], filterMaps = Map.empty,
                numOfFilterTotal = 0\<rparr>"

text \<open>
  The registry after two overlapping calls (\<open>getFiltersRace\<close>) for the consumers \<open>p\<close> and \<open>q\<close> of the
  filter \<open>f\<close>, from the empty registry; the channel of a consumer is named as the
  consumer.
\<close>

definition raced :: "(string, nat) registry" where
  "raced = snd (getFiltersRace (okProcessors ProcessorID) (okProcessors ProcessorID)
                  (ruleSet ''p'' True [[cond 1 ''eq'' ''A'']]) 10 (ruleSet ''q'' False []) 20
                  registry0)"

text \<open>The consumer identifiers of a list of calls.\<close>

definition consumerIDs :: "(TaskConfig \<times> 't) list \<Rightarrow> string list" where
  "consumerIDs calls = map (\<lambda>call. ProcessorID (fst call)) calls"

text \<open>The calls of the two consumers, and the registry after the first of them alone.\<close>

definition twoCalls :: "(TaskConfig \<times> nat) list" where
  "twoCalls = [(ruleSet ''p'' True [[cond 1 ''eq'' ''A'']], 10), (ruleSet ''q'' False [], 20)]"

definition oneRegistered :: "(string, nat) registry" where
  "oneRegistered = snd (GetFilters (okProcessors ProcessorID) (okProcessors ProcessorID)
                          (ruleSet ''p'' True [[cond 1 ''eq'' ''A'']]) 10 registry0)"

text \<open>
  Following the words of the specification, not the code: \<open>ws\<close> is a split of the line
  \<open>s\<close> by the delimiter \<open>sep\<close> into at most \<open>n\<close> parts. The parts joined by the
  delimiter give the line; every part but the last ends at the first occurrence of the
  delimiter after its start; the last part keeps what is left unsplit, and holds no
  delimiter unless all \<open>n\<close> parts are used.
\<close>

definition boundedSplit :: "nat \<Rightarrow> string \<Rightarrow> string \<Rightarrow> string list \<Rightarrow> bool" where
  "boundedSplit n sep s ws \<longleftrightarrow>
     ws \<noteq> [] \<and> length ws \<le> n \<and> Join ws sep = s
     \<and> (\<forall>w \<in> set (butlast ws). Index_str (w @ sep) sep = Some (length w))
     \<and> (length ws < n \<longrightarrow> \<not> Contains (last ws) sep)"

text \<open>
  The channels of the consumers whose rule set accepts the event on the columns
  \<open>words\<close> and that have an output, and the consumers whose rule set rejects it, both in
  the order of the entries.
\<close>

definition acceptedOuts ::
  "catalog \<Rightarrow> ('c, 't) Filters \<Rightarrow> string list \<Rightarrow> string \<Rightarrow> Data \<Rightarrow> (string \<times> TaskConfig) list \<Rightarrow> 'c list" where
  "acceptedOuts getOperation f words text data entries =
     List.map_filter
       (\<lambda>(processorID, taskConfig).
          case Handle getOperation words text taskConfig (Event data) of
            None \<Rightarrow> None
          | Some event \<Rightarrow> Outs f processorID)
       entries"

definition rejectedIDs ::
  "catalog \<Rightarrow> string list \<Rightarrow> string \<Rightarrow> Data \<Rightarrow> (string \<times> TaskConfig) list \<Rightarrow> string list" where
  "rejectedIDs getOperation words text data entries =
     map fst (filter (\<lambda>(processorID, taskConfig).
                        Handle getOperation words text taskConfig (Event data) = None) entries)"

text \<open>The instance of one consumer \<open>p\<close> (channel 1) that asks for \<open>c\<close> in column 3.\<close>

definition column3eq :: "(nat, nat) Filters" where
  "column3eq = instanceOf (ruleSet ''p'' True [[cond 3 ''eq'' ''c'']]) 1 10"

section \<open>Properties\<close>

subsection \<open>Substrings\<close>

lemma Index_str_decomp:
  "Index_str s substr = Some i \<Longrightarrow> s = take i s @ substr @ drop (i + length substr) s"
proof (induction s arbitrary: i)
  case Nil
  then show ?case by (simp split: if_splits)
next
  case (Cons c cs)
  show ?case
  proof (cases "take (length substr) (c # cs) = substr")
    case True
    with Cons.prems have "i = 0" by simp
    moreover have "c # cs = take (length substr) (c # cs) @ drop (length substr) (c # cs)"
      by (simp only: append_take_drop_id)
    ultimately show ?thesis using True by simp
  next
    case False
    with Cons.prems obtain j where j: "Index_str cs substr = Some j" "i = Suc j"
      by auto
    from Cons.IH [OF j(1)] j(2) show ?thesis by simp
  qed
qed

lemma Index_str_prefix: "Index_str (substr @ q) substr = Some 0"
proof (cases "substr @ q")
  case Nil
  then show ?thesis by simp
next
  case (Cons a list)
  have "take (length substr) (substr @ q) = substr" by simp
  then show ?thesis unfolding Cons by simp
qed

lemma Index_str_append: "\<exists>i. Index_str (p @ substr @ q) substr = Some i"
proof (induction p)
  case Nil
  show ?case by (simp add: Index_str_prefix)
next
  case (Cons c p)
  then show ?case by auto
qed

lemma Contains_iff: "Contains s substr \<longleftrightarrow> (\<exists>p q. s = p @ substr @ q)"
proof
  assume "Contains s substr"
  then obtain i where "Index_str s substr = Some i"
    by (auto simp: Contains_def)
  from Index_str_decomp [OF this] show "\<exists>p q. s = p @ substr @ q" by blast
next
  assume "\<exists>p q. s = p @ substr @ q"
  then obtain p q where "s = p @ substr @ q" by blast
  with Index_str_append [of p substr q] show "Contains s substr"
    by (auto simp: Contains_def)
qed

lemma checkConditions_iff:
  "checkConditions getOperation words text cs \<longleftrightarrow>
     (\<forall>c \<in> set cs. checkCondition getOperation words text c)"
  by (induction cs) simp_all

lemma handleGroups_iff:
  "handleGroups getOperation words text gs event =
     (if \<exists>g \<in> set gs. checkConditions getOperation words text (Conditions g)
      then Some event else None)"
  by (induction gs) simp_all

subsection \<open>Rule evaluation\<close>

text \<open>
  Claim C1. With \<open>HasFilter\<close> set, \<open>Handle\<close> returns the event exactly when some rule
  group has all its conditions hold, and \<open>nil\<close> otherwise. The scan is in order and
  stops at the first such group: the groups after it do not matter. Within a group a
  failing condition decides the group, whatever follows it. When of two groups the
  first rejects and the second accepts, the event is accepted.
\<close>

theorem Handle_first_satisfied_group:
  assumes "HasFilter taskConfig"
  shows "Handle getOperation words text taskConfig event =
           (if \<exists>g \<in> set (TaskConfig.Filters taskConfig).
                 \<forall>c \<in> set (Conditions g). checkCondition getOperation words text c
            then Some event else None)
         \<and> (\<forall>gs1 g gs2.
               TaskConfig.Filters taskConfig = gs1 @ g # gs2 \<and>
               (\<forall>c \<in> set (Conditions g). checkCondition getOperation words text c) \<longrightarrow>
               Handle getOperation words text taskConfig event = Some event \<and>
               Handle getOperation words text (taskConfig\<lparr>Filters := gs1 @ [g]\<rparr>) event
                 = Some event)
         \<and> (\<forall>cs1 c cs2.
               \<not> checkCondition getOperation words text c \<longrightarrow>
               checkConditions getOperation words text (cs1 @ c # cs2) = False)
         \<and> (\<forall>g1 g2.
               TaskConfig.Filters taskConfig = [g1, g2] \<and>
               \<not> checkConditions getOperation words text (Conditions g1) \<and>
               checkConditions getOperation words text (Conditions g2) \<longrightarrow>
               Handle getOperation words text taskConfig event = Some event)"
  using assms
  by (auto simp: Handle_def handleGroups_iff checkConditions_iff)

theorem Handle_first_satisfied_group_witness:
  "HasFilter (ruleSet ''p'' True [[cond 1 ''eq'' ''x''], [cond 2 ''eq'' ''b'']])
   \<and> Handle eqCatalog [''a'', ''b''] ''a,b''
        (ruleSet ''p'' True [[cond 1 ''eq'' ''x''], [cond 2 ''eq'' ''b'']]) (7::nat) = Some 7
   \<and> Handle eqCatalog [''a'', ''c''] ''a,c''
        (ruleSet ''p'' True [[cond 1 ''eq'' ''x''], [cond 2 ''eq'' ''b'']]) (7::nat) = None"
  using Handle_first_satisfied_group
      [of "ruleSet ''p'' True [[cond 1 ''eq'' ''x''], [cond 2 ''eq'' ''b'']]"
          eqCatalog "[''a'', ''b'']" "''a,b''" "7::nat"]
    Handle_first_satisfied_group
      [of "ruleSet ''p'' True [[cond 1 ''eq'' ''x''], [cond 2 ''eq'' ''b'']]"
          eqCatalog "[''a'', ''c'']" "''a,c''" "7::nat"]
  by (simp add: checkCondition_def eqCatalog_def ruleSet_def cond_def)

text \<open>
  Claim C2. For a condition with \<open>Index \<ge> 1\<close>: an operator that the catalogue does not
  know makes the condition pass (the loop goes on to the next condition); with a known
  operator and fewer columns than \<open>Index\<close> the condition fails, and the rule set made of
  this condition alone rejects the event (returns \<open>nil\<close>; there is no error); otherwise
  the condition holds exactly when the operator's predicate holds of the column
  \<open>Index - 1\<close> and the key.
\<close>

theorem checkCondition_column:
  assumes "1 \<le> Index condition"
  shows "(getOperation (Op condition) = None \<longrightarrow>
            checkCondition getOperation words text condition \<and>
            checkConditions getOperation words text (condition # rest)
              = checkConditions getOperation words text rest)
         \<and> (\<forall>operationFunc.
               getOperation (Op condition) = Some operationFunc \<and>
               int (length words) < Index condition \<longrightarrow>
               \<not> checkCondition getOperation words text condition \<and>
               Handle getOperation words text
                 \<lparr>FilterID = fid, ProcessorID = pid, Delimiter = delim, HasFilter = True,
                  Filters = [\<lparr>Conditions = [condition]\<rparr>]\<rparr> event = None)
         \<and> (\<forall>operationFunc.
               getOperation (Op condition) = Some operationFunc \<and>
               Index condition \<le> int (length words) \<longrightarrow>
               checkCondition getOperation words text condition
                 = operationFunc (words ! (nat (Index condition) - 1)) (Key condition))"
proof -
  from assms have pos: "\<not> Index condition \<le> 0" by simp
  from assms have nth: "nat (Index condition - 1) = nat (Index condition) - 1" by simp
  show ?thesis
    using pos by (auto simp: checkCondition_def Handle_def nth)
qed

theorem checkCondition_column_witness:
  "1 \<le> Index (cond 2 ''eq'' ''b'')
   \<and> checkCondition eqCatalog [''a'', ''b''] ''a,b'' (cond 2 ''eq'' ''b'')
   \<and> \<not> checkCondition eqCatalog [''a'', ''c''] ''a,c'' (cond 2 ''eq'' ''b'')
   \<and> \<not> checkCondition eqCatalog [''a''] ''a'' (cond 2 ''eq'' ''b'')
   \<and> 1 \<le> Index (cond 2 ''like'' ''b'')
   \<and> checkCondition eqCatalog [''a''] ''a'' (cond 2 ''like'' ''b'')"
  using checkCondition_column [of "cond 2 ''eq'' ''b''" eqCatalog "[''a'', ''b'']" "''a,b''"]
    checkCondition_column [of "cond 2 ''eq'' ''b''" eqCatalog "[''a'', ''c'']" "''a,c''"]
    checkCondition_column [of "cond 2 ''eq'' ''b''" eqCatalog "[''a'']" "''a''"]
    checkCondition_column [of "cond 2 ''like'' ''b''" eqCatalog "[''a'']" "''a''"]
  by (auto simp add: eqCatalog_def cond_def)

text \<open>
  Claim C6. Without \<open>HasFilter\<close>, \<open>Handle\<close> returns the event, whatever the line, the
  columns and the rule groups of the configuration are.
\<close>

theorem Handle_no_filter:
  assumes "\<not> HasFilter taskConfig"
  shows "Handle getOperation words text taskConfig event = Some event"
  using assms by (simp add: Handle_def)

theorem Handle_no_filter_witness:
  "\<not> HasFilter (ruleSet ''p'' False [[cond 1 ''eq'' ''x'']])
   \<and> Handle eqCatalog [''a''] ''a'' (ruleSet ''p'' False [[cond 1 ''eq'' ''x'']]) (7::nat)
       = Some 7"
  using Handle_no_filter [of "ruleSet ''p'' False [[cond 1 ''eq'' ''x'']]" eqCatalog
      "[''a'']" "''a''" "7::nat"]
  by (simp add: ruleSet_def)

text \<open>
  Claim C7. A condition with \<open>Index \<le> 0\<close> holds exactly when the key occurs in the raw
  line as a contiguous run of the same bytes (so case matters); the columns, the
  catalogue and the condition's operator play no part.
\<close>

theorem checkCondition_whole_line:
  assumes "Index condition \<le> 0"
  shows "(checkCondition getOperation words text condition
            \<longleftrightarrow> (\<exists>p q. text = p @ Key condition @ q))
         \<and> checkCondition getOperation' words' text (condition\<lparr>Op := op'\<rparr>)
             = checkCondition getOperation words text condition"
  using assms by (simp add: checkCondition_def Contains_iff)

theorem checkCondition_whole_line_witness:
  "Index (cond 0 ''eq'' ''ERROR'') \<le> 0
   \<and> checkCondition eqCatalog [''x'', ''y''] ''2026 ERROR disk'' (cond 0 ''eq'' ''ERROR'')
   \<and> \<not> checkCondition eqCatalog [''x'', ''y''] ''2026 error disk'' (cond 0 ''eq'' ''ERROR'')"
  using checkCondition_whole_line [of "cond 0 ''eq'' ''ERROR''" eqCatalog "[''x'', ''y'']"
      "''2026 ERROR disk''"]
  by (simp add: cond_def checkCondition_def Contains_def)

text \<open>
  Claim C10. With \<open>HasFilter\<close> set, a rule group without conditions makes \<open>Handle\<close>
  return the event, whatever the line and the other groups are.
\<close>

theorem Handle_empty_group:
  assumes "HasFilter taskConfig"
    and "g \<in> set (TaskConfig.Filters taskConfig)"
    and "Conditions g = []"
  shows "Handle getOperation words text taskConfig event = Some event"
proof -
  from assms(3) have "checkConditions getOperation words text (Conditions g)" by simp
  with assms(2) have "\<exists>g \<in> set (TaskConfig.Filters taskConfig).
      checkConditions getOperation words text (Conditions g)" by blast
  with assms(1) show ?thesis by (simp add: Handle_def handleGroups_iff)
qed

theorem Handle_empty_group_witness:
  "HasFilter (ruleSet ''p'' True [[cond 1 ''eq'' ''x''], []])
   \<and> \<lparr>Conditions = []\<rparr> \<in> set (TaskConfig.Filters (ruleSet ''p'' True [[cond 1 ''eq'' ''x''], []]))
   \<and> Handle eqCatalog [''a''] ''a'' (ruleSet ''p'' True [[cond 1 ''eq'' ''x''], []]) (7::nat)
       = Some 7"
  using Handle_empty_group [of "ruleSet ''p'' True [[cond 1 ''eq'' ''x''], []]"
      "\<lparr>Conditions = []\<rparr>" eqCatalog "[''a'']" "''a''" "7::nat"]
  by (simp add: ruleSet_def)

subsection \<open>Merging configurations\<close>

lemma mergeMaxIndex_fold:
  "mergeMaxIndex cur gs = fold max (groupLastIndices gs) cur"
proof (induction gs arbitrary: cur)
  case Nil
  show ?case by (simp add: groupLastIndices_def)
next
  case (Cons g gs)
  show ?case
  proof (cases "Conditions g = []")
    case True
    with Cons.IH [of cur] show ?thesis by (simp add: groupLastIndices_def)
  next
    case False
    then have "mergeMaxIndex cur (g # gs) = mergeMaxIndex (max (Index (last (Conditions g))) cur) gs"
      by (simp add: Let_def max_def)
    with False Cons.IH [of "max (Index (last (Conditions g))) cur"] show ?thesis
      by (simp add: groupLastIndices_def)
  qed
qed

lemma lastIndices_Cons:
  "lastIndices (cfg # cfgs) =
     (if HasFilter cfg then groupLastIndices (TaskConfig.Filters cfg) else []) @ lastIndices cfgs"
  by (simp add: lastIndices_def specLastIndices_def groupLastIndices_def)

lemma filterMaxIndex_Merge:
  "filterMaxIndex (MergeFilterConfig cfg f) =
     (if HasFilter cfg then mergeMaxIndex (filterMaxIndex f) (TaskConfig.Filters cfg)
      else filterMaxIndex f)"
  by (simp add: MergeFilterConfig_def Let_def)

lemma filterMaxIndex_mergeAll_fold:
  "filterMaxIndex (mergeAll cfgs f) = fold max (lastIndices cfgs) (filterMaxIndex f)"
proof (induction cfgs arbitrary: f)
  case Nil
  show ?case by (simp add: mergeAll_def lastIndices_def specLastIndices_def)
next
  case (Cons cfg cfgs)
  have "filterMaxIndex (mergeAll (cfg # cfgs) f)
      = filterMaxIndex (mergeAll cfgs (MergeFilterConfig cfg f))"
    by (simp add: mergeAll_def)
  also have "\<dots> = fold max (lastIndices cfgs) (filterMaxIndex (MergeFilterConfig cfg f))"
    by (rule Cons.IH)
  also have "\<dots> = fold max (lastIndices (cfg # cfgs)) (filterMaxIndex f)"
    by (simp add: filterMaxIndex_Merge mergeMaxIndex_fold lastIndices_Cons)
  finally show ?case .
qed

lemma fold_max_Max: "fold max xs (a::int) = Max (insert a (set xs))"
  using Max.set_eq_fold [of a xs] by simp

lemma filterMaxIndex_mergeAll:
  "filterMaxIndex (mergeAll cfgs f) = Max (insert (filterMaxIndex f) (set (lastIndices cfgs)))"
  by (simp add: filterMaxIndex_mergeAll_fold fold_max_Max)

lemma set_lastIndices:
  "set (lastIndices cfgs) =
     (\<Union>cfg \<in> {c \<in> set cfgs. HasFilter c}. set (groupLastIndices (TaskConfig.Filters cfg)))"
  by (auto simp: lastIndices_def specLastIndices_def groupLastIndices_def)

lemma lastIndices_mset:
  "mset cfgs' = mset cfgs \<Longrightarrow> set (lastIndices cfgs') = set (lastIndices cfgs)"
  using mset_eq_setD [of cfgs' cfgs] by (simp add: set_lastIndices)

lemma filterMaxIndex_mono: "filterMaxIndex f \<le> filterMaxIndex (MergeFilterConfig cfg f)"
  by (simp add: filterMaxIndex_Merge mergeMaxIndex_fold fold_max_Max)

text \<open>
  Claim C3, as the code has it. After merging the configurations \<open>cfgs\<close> into an
  instance, \<open>filterMaxIndex\<close> is the maximum of its value before (0 for the instance
  that \<open>NewFilters\<close> allocates) and of the indices of the last conditions of the
  non-empty groups of the configurations that have \<open>HasFilter\<close> set; where one of these
  indices is not negative, it is their maximum. The value is the same for every order
  of the merges, it never decreases, and a configuration without \<open>HasFilter\<close> leaves it
  as it is.
\<close>

theorem filterMaxIndex_merge_max:
  "filterMaxIndex (mergeAll cfgs f)
     = Max (insert (filterMaxIndex f) (set (lastIndices cfgs)))
   \<and> filterMaxIndex (mergeAll cfgs (emptyFilters cfg0 :: ('c, 't) Filters))
       = Max (insert 0 (set (lastIndices cfgs)))
   \<and> (lastIndices cfgs \<noteq> [] \<and> 0 \<le> Max (set (lastIndices cfgs)) \<longrightarrow>
        filterMaxIndex (mergeAll cfgs (emptyFilters cfg0 :: ('c, 't) Filters))
          = Max (set (lastIndices cfgs)))
   \<and> (mset cfgs' = mset cfgs \<longrightarrow>
        filterMaxIndex (mergeAll cfgs' f) = filterMaxIndex (mergeAll cfgs f))
   \<and> filterMaxIndex f \<le> filterMaxIndex (MergeFilterConfig cfg f)
   \<and> filterMaxIndex f \<le> filterMaxIndex (mergeAll cfgs f)
   \<and> (\<not> HasFilter cfg \<longrightarrow> filterMaxIndex (MergeFilterConfig cfg f) = filterMaxIndex f)"
proof -
  have e: "filterMaxIndex (emptyFilters cfg0 :: ('c, 't) Filters) = 0"
    by (simp add: emptyFilters_def)
  have 1: "filterMaxIndex (mergeAll cfgs (emptyFilters cfg0 :: ('c, 't) Filters))
       = Max (insert 0 (set (lastIndices cfgs)))"
    by (simp add: filterMaxIndex_mergeAll e)
  have 2: "lastIndices cfgs \<noteq> [] \<and> 0 \<le> Max (set (lastIndices cfgs)) \<longrightarrow>
      Max (insert 0 (set (lastIndices cfgs))) = Max (set (lastIndices cfgs))"
    by (auto simp: max_def)
  have 3: "mset cfgs' = mset cfgs \<longrightarrow>
        filterMaxIndex (mergeAll cfgs' f) = filterMaxIndex (mergeAll cfgs f)"
    by (auto simp: filterMaxIndex_mergeAll dest: lastIndices_mset)
  have 4: "filterMaxIndex f \<le> filterMaxIndex (mergeAll cfgs f)"
    by (simp add: filterMaxIndex_mergeAll)
  have 5: "\<not> HasFilter cfg \<longrightarrow> filterMaxIndex (MergeFilterConfig cfg f) = filterMaxIndex f"
    by (simp add: filterMaxIndex_Merge)
  from 1 2 3 4 5 filterMaxIndex_mono [of f cfg] filterMaxIndex_mergeAll [of cfgs f]
  show ?thesis by presburger
qed

theorem filterMaxIndex_merge_max_witness:
  "filterMaxIndex (mergeAll mergeExample (emptyFilters (hd mergeExample) :: (nat, nat) Filters)) = 3
   \<and> filterMaxIndex (mergeAll (rev mergeExample) (emptyFilters (hd mergeExample) :: (nat, nat) Filters)) = 3
   \<and> \<not> HasFilter (mergeExample ! 1)
   \<and> filterMaxIndex (MergeFilterConfig (mergeExample ! 1)
        (emptyFilters (hd mergeExample) :: (nat, nat) Filters)) = 0"
proof -
  let ?f = "emptyFilters (hd mergeExample) :: (nat, nat) Filters"
  have l: "lastIndices mergeExample = [3, 0, 2]"
    by (simp add: mergeExample_def lastIndices_def specLastIndices_def ruleSet_def cond_def)
  have m: "mset (rev mergeExample) = mset mergeExample"
    by simp
  have h: "\<not> HasFilter (mergeExample ! 1)"
    by (simp add: mergeExample_def ruleSet_def)
  have e: "filterMaxIndex ?f = 0"
    by (simp add: emptyFilters_def)
  from filterMaxIndex_merge_max [of mergeExample ?f "hd mergeExample" "rev mergeExample"
      "mergeExample ! 1"] l m h e
  show ?thesis by auto
qed

text \<open>
  Claim C3, as it is stated, fails for a configuration whose only group ends with a
  condition on the whole line (index \<open>-1\<close>): the maximum of the indices of the last
  conditions is \<open>-1\<close>, and \<open>filterMaxIndex\<close> is 0.
\<close>

theorem filterMaxIndex_spec_counterexample:
  "filterMaxIndex
     (mergeAll [ruleSet ''p'' True [[cond (- 1) ''eq'' ''ERROR'']]]
        (emptyFilters (ruleSet ''p'' True [[cond (- 1) ''eq'' ''ERROR'']]) :: (nat, nat) Filters))
   \<noteq> specMaxIndex [ruleSet ''p'' True [[cond (- 1) ''eq'' ''ERROR'']]]"
  by (simp add: mergeAll_def MergeFilterConfig_def emptyFilters_def ruleSet_def cond_def
      specMaxIndex_def specLastIndices_def)

subsection \<open>Splitting the line\<close>

lemma Index_str_first: "Index_str (p @ sep @ q) sep = Some i \<Longrightarrow> i \<le> length p"
proof (induction p arbitrary: i)
  case Nil
  then show ?case by (simp add: Index_str_prefix)
next
  case (Cons c p)
  show ?case
  proof (cases "take (length sep) (c # p @ sep @ q) = sep")
    case True
    with Cons.prems show ?thesis by simp
  next
    case False
    with Cons.prems obtain j where "Index_str (p @ sep @ q) sep = Some j" "i = Suc j"
      by auto
    with Cons.IH show ?thesis by simp
  qed
qed

lemma not_Contains_take:
  assumes "Index_str s sep = Some m" and "sep \<noteq> []"
  shows "\<not> Contains (take m s) sep"
proof
  assume "Contains (take m s) sep"
  then obtain p q where pq: "take m s = p @ sep @ q"
    by (auto simp: Contains_iff)
  have "s = take m s @ drop m s" by simp
  with pq have "s = p @ sep @ (q @ drop m s)" by simp
  with assms(1) have "Index_str (p @ sep @ (q @ drop m s)) sep = Some m" by simp
  then have "m \<le> length p" by (rule Index_str_first)
  moreover have "length (take m s) \<le> m" by simp
  moreover from pq assms(2) have "length p < length (take m s)"
    by (simp del: length_take)
  ultimately show False by simp
qed

lemma not_Contains_Nil: "sep \<noteq> [] \<Longrightarrow> \<not> Contains [] sep"
  by (simp add: Contains_def)

lemma splitLoop_not_Nil: "splitLoop k s sep \<noteq> []"
  by (cases k) (simp_all split: option.splits)

lemma Join_Cons: "ys \<noteq> [] \<Longrightarrow> Join (x # ys) sep = x @ sep @ Join ys sep"
  by (cases ys) simp_all

lemma Join_splitLoop: "Join (splitLoop k s sep) sep = s"
proof (induction k arbitrary: s)
  case 0
  show ?case by simp
next
  case (Suc k)
  show ?case
  proof (cases "Index_str s sep")
    case None
    then show ?thesis by simp
  next
    case (Some m)
    from Index_str_decomp [OF Some] Suc.IH [of "drop (m + length sep) s"] Some
    show ?thesis by (simp add: Join_Cons splitLoop_not_Nil)
  qed
qed

lemma length_splitLoop: "length (splitLoop k s sep) \<le> Suc k"
  by (induction k arbitrary: s) (simp_all split: option.splits)

lemma butlast_splitLoop:
  "sep \<noteq> [] \<Longrightarrow> w \<in> set (butlast (splitLoop k s sep)) \<Longrightarrow> \<not> Contains w sep"
proof (induction k arbitrary: s)
  case 0
  then show ?case by simp
next
  case (Suc k)
  show ?case
  proof (cases "Index_str s sep")
    case None
    with Suc.prems show ?thesis by simp
  next
    case (Some m)
    with Suc.prems have "w = take m s \<or> w \<in> set (butlast (splitLoop k (drop (m + length sep) s) sep))"
      by (simp add: splitLoop_not_Nil)
    then show ?thesis
      using not_Contains_take [OF Some Suc.prems(1)] Suc.IH [OF Suc.prems(1)] by blast
  qed
qed

lemma last_splitLoop_short:
  "length (splitLoop k s sep) < Suc k \<Longrightarrow> \<not> Contains (last (splitLoop k s sep)) sep"
proof (induction k arbitrary: s)
  case 0
  then show ?case by simp
next
  case (Suc k)
  show ?case
  proof (cases "Index_str s sep")
    case None
    then show ?thesis by (simp add: Contains_def)
  next
    case (Some m)
    with Suc.prems Suc.IH [of "drop (m + length sep) s"] show ?thesis
      by (simp add: splitLoop_not_Nil)
  qed
qed

lemma splitLoop_consumes:
  "sep \<noteq> [] \<Longrightarrow>
     length (splitLoop k s sep) + length (last (splitLoop k s sep)) \<le> Suc (length s)"
proof (induction k arbitrary: s)
  case 0
  show ?case by simp
next
  case (Suc k)
  show ?case
  proof (cases "Index_str s sep")
    case None
    then show ?thesis by simp
  next
    case (Some m)
    from Index_str_bound [OF Some] Suc.prems
    have "Suc (length (drop (m + length sep) s)) \<le> length s"
      by (cases sep) simp_all
    with Suc.IH [OF Suc.prems, of "drop (m + length sep) s"] Some show ?thesis
      by (simp add: splitLoop_not_Nil)
  qed
qed

lemma Count_le_length: "sep \<noteq> [] \<Longrightarrow> Count s sep \<le> length s"
proof (induction s sep rule: Count.induct)
  case (1 s substr)
  show ?case
  proof (cases "Index_str s substr")
    case None
    with 1 show ?thesis by (simp add: Count.simps [of s substr])
  next
    case (Some i)
    from Index_str_bound [OF Some] "1.prems"
    have "Suc (length (drop (i + length substr) s)) \<le> length s"
      by (cases substr) simp_all
    with "1.IH" [OF "1.prems" Some] "1.prems" Some show ?thesis
      by (simp add: Count.simps [of s substr])
  qed
qed

lemma last_splitLoop_Count:
  "sep \<noteq> [] \<Longrightarrow> \<not> Contains (last (splitLoop (Count s sep) s sep)) sep"
proof (induction s sep rule: Count.induct)
  case (1 s substr)
  show ?case
  proof (cases "Index_str s substr")
    case None
    with "1.prems" show ?thesis by (simp add: Count.simps [of s substr] Contains_def)
  next
    case (Some i)
    with "1.IH" [OF "1.prems" Some] "1.prems" show ?thesis
      by (simp add: Count.simps [of s substr] splitLoop_not_Nil)
  qed
qed


lemma SplitN_splitLoop:
  assumes "sep \<noteq> []" and "n \<noteq> 0"
  shows "\<exists>k. SplitN s sep n = splitLoop k s sep \<and> k \<le> length s
           \<and> (0 < n \<longrightarrow> int k < n \<and> (int k = n - 1 \<or> k = length s))
           \<and> (n < 0 \<longrightarrow> k = Count s sep)"
proof (cases "n < 0")
  case True
  from Count_le_length [OF assms(1), of s]
  have "SplitN s sep n = splitLoop (Count s sep) s sep"
    using True assms by (simp add: SplitN_def)
  with True Count_le_length [OF assms(1), of s] show ?thesis by auto
next
  case False
  with assms(2) have pos: "0 < n" by simp
  show ?thesis
  proof (cases "n > int (length s) + 1")
    case True
    with pos assms have "SplitN s sep n = splitLoop (length s) s sep"
      by (simp add: SplitN_def)
    with pos True show ?thesis by auto
  next
    case False
    with pos assms have "SplitN s sep n = splitLoop (nat (n - 1)) s sep"
      by (simp add: SplitN_def)
    moreover from pos False have "nat (n - 1) \<le> length s" "int (nat (n - 1)) = n - 1"
      by simp_all
    ultimately show ?thesis using pos by auto
  qed
qed

lemma SplitN_bounded:
  assumes "sep \<noteq> []" and "n \<noteq> 0"
  shows "SplitN s sep n \<noteq> []"
    and "Join (SplitN s sep n) sep = s"
    and "\<forall>w \<in> set (butlast (SplitN s sep n)). \<not> Contains w sep"
    and "length (SplitN s sep n) \<le> Suc (length s)"
    and "0 < n \<Longrightarrow> int (length (SplitN s sep n)) \<le> n"
    and "0 < n \<Longrightarrow> int (length (SplitN s sep n)) < n \<Longrightarrow> \<not> Contains (last (SplitN s sep n)) sep"
    and "n < 0 \<Longrightarrow> \<not> Contains (last (SplitN s sep n)) sep"
proof -
  from SplitN_splitLoop [OF assms, of s] obtain k where
    k: "SplitN s sep n = splitLoop k s sep" "k \<le> length s"
    and kp: "0 < n \<Longrightarrow> int k < n \<and> (int k = n - 1 \<or> k = length s)"
    and kn: "n < 0 \<Longrightarrow> k = Count s sep"
    by blast
  show "SplitN s sep n \<noteq> []" by (simp add: k splitLoop_not_Nil)
  show "Join (SplitN s sep n) sep = s" by (simp add: k Join_splitLoop)
  show "\<forall>w \<in> set (butlast (SplitN s sep n)). \<not> Contains w sep"
    using butlast_splitLoop [OF assms(1)] by (auto simp: k)
  show "length (SplitN s sep n) \<le> Suc (length s)"
    using length_splitLoop [of k s sep] k(2) by (simp add: k(1))
  show "int (length (SplitN s sep n)) \<le> n" if "0 < n"
    using length_splitLoop [of k s sep] kp [OF that] by (simp add: k(1))
  show "\<not> Contains (last (SplitN s sep n)) sep" if "0 < n" "int (length (SplitN s sep n)) < n"
  proof (cases "length (splitLoop k s sep) < Suc k")
    case True
    then show ?thesis by (simp add: k(1) last_splitLoop_short)
  next
    case False
    with length_splitLoop [of k s sep] have full: "length (splitLoop k s sep) = Suc k" by simp
    with that(2) k(1) kp [OF that(1)] have "k = length s" by auto
    with full splitLoop_consumes [OF assms(1), of k s]
    have "last (splitLoop k s sep) = []" by simp
    with assms(1) show ?thesis by (simp add: k(1) not_Contains_Nil)
  qed
  show "\<not> Contains (last (SplitN s sep n)) sep" if "n < 0"
    using kn [OF that] last_splitLoop_Count [OF assms(1), of s] by (simp add: k(1))
qed

lemma int64_id: "- (2 ^ 63) \<le> x \<Longrightarrow> x < 2 ^ 63 \<Longrightarrow> int64 x = x"
  by (simp add: int64_def)

lemma int64_wrap: "int64 (2 ^ 63) = - (2 ^ 63)"
  by (simp add: int64_def)


lemma SplitN_abc:
  "SplitN ''a,b,c'' '','' 4 = [''a'', ''b'', ''c'']"
  "SplitN ''a,b,c'' '','' 5 = [''a'', ''b'', ''c'']"
  by (simp_all add: SplitN_def Let_def numeral_3_eq_3 eval_nat_numeral(2) )

lemma splitWords_n:
  assumes "0 \<le> filterMaxIndex f" and "filterMaxIndex f < 2 ^ 63"
  shows "int64 (filterMaxIndex f + 1) \<noteq> 0
         \<and> (filterMaxIndex f < 2 ^ 63 - 1 \<longrightarrow> int64 (filterMaxIndex f + 1) = filterMaxIndex f + 1)
         \<and> (filterMaxIndex f = 2 ^ 63 - 1 \<longrightarrow> int64 (filterMaxIndex f + 1) < 0)"
proof (cases "filterMaxIndex f = 2 ^ 63 - 1")
  case True
  then show ?thesis by (simp add: int64_def)
next
  case False
  with assms have "int64 (filterMaxIndex f + 1) = filterMaxIndex f + 1"
    by (intro int64_id) simp_all
  with assms False show ?thesis by simp
qed

lemma SplitN_example: "SplitN ''a,b,c,d,e'' '','' 4 = [''a'', ''b'', ''c'', ''d,e'']"
proof -
  show ?thesis by (simp add: SplitN_def Let_def numeral_3_eq_3)
qed

lemma take_drop_append:
  "i + n \<le> length x \<Longrightarrow> take n (drop i (x @ r)) = take n (drop i x)"
  by simp

lemma Index_str_occurs:
  "Index_str s sep = Some i \<Longrightarrow> take (length sep) (drop i s) = sep"
proof -
  assume a: "Index_str s sep = Some i"
  from Index_str_decomp [OF a] have "drop i s = drop i (take i s @ sep @ drop (i + length sep) s)"
    by simp
  also have "\<dots> = sep @ drop (i + length sep) s"
    using Index_str_bound [OF a] by simp
  finally show ?thesis by simp
qed

lemma Index_str_least:
  "take (length sep) (drop j s) = sep \<Longrightarrow> j + length sep \<le> length s \<Longrightarrow>
     \<exists>i. Index_str s sep = Some i \<and> i \<le> j"
proof -
  assume t: "take (length sep) (drop j s) = sep" and l: "j + length sep \<le> length s"
  have "s = take j s @ drop j s" by simp
  also have "drop j s = take (length sep) (drop j s) @ drop (length sep) (drop j s)"
    by (simp only: append_take_drop_id)
  finally have s: "s = take j s @ sep @ drop (length sep) (drop j s)" using t by simp
  from Index_str_append [of "take j s" sep "drop (length sep) (drop j s)"] s
  obtain i where i: "Index_str s sep = Some i" by auto
  with s have "Index_str (take j s @ sep @ drop (length sep) (drop j s)) sep = Some i" by simp
  from Index_str_first [OF this] l have "i \<le> j" by simp
  with i show ?thesis by blast
qed

lemma Index_str_extend:
  assumes "Index_str (w @ sep) sep = Some (length w)"
  shows "Index_str (w @ sep @ r) sep = Some (length w)"
proof -
  from Index_str_append [of w sep r] obtain i where i: "Index_str (w @ sep @ r) sep = Some i"
    by blast
  from Index_str_first [OF i] have le: "i \<le> length w" .
  have "take (length sep) (drop i ((w @ sep) @ r)) = take (length sep) (drop i (w @ sep))"
    using le by (intro take_drop_append) simp
  with Index_str_occurs [OF i] have "take (length sep) (drop i (w @ sep)) = sep" by simp
  moreover from le have "i + length sep \<le> length (w @ sep)" by simp
  ultimately obtain i' where "Index_str (w @ sep) sep = Some i'" "i' \<le> i"
    using Index_str_least by blast
  with assms have "length w \<le> i" by simp
  with le i show ?thesis by simp
qed

lemma Index_str_restrict:
  assumes "Index_str s sep = Some m"
  shows "Index_str (take m s @ sep) sep = Some m"
proof -
  from Index_str_bound [OF assms] have m: "length (take m s) = m" by simp
  from Index_str_append [of "take m s" sep "[]"] obtain i where
    i: "Index_str (take m s @ sep) sep = Some i" by auto
  then have "Index_str (take m s @ sep @ []) sep = Some i" by simp
  from Index_str_first [OF this] m have le: "i \<le> m" by simp
  have s: "s = (take m s @ sep) @ drop (m + length sep) s"
    using Index_str_decomp [OF assms] by simp
  have "take (length sep) (drop i ((take m s @ sep) @ drop (m + length sep) s))
      = take (length sep) (drop i (take m s @ sep))"
    using le m by (intro take_drop_append) simp
  with s Index_str_occurs [OF i] have "take (length sep) (drop i s) = sep" by simp
  moreover from le Index_str_bound [OF assms] have "i + length sep \<le> length s" by simp
  ultimately obtain i' where "Index_str s sep = Some i'" "i' \<le> i"
    using Index_str_least by blast
  with assms have "m \<le> i" by simp
  with le i show ?thesis by simp
qed

lemma butlast_splitLoop_leftmost:
  "w \<in> set (butlast (splitLoop k s sep)) \<Longrightarrow> Index_str (w @ sep) sep = Some (length w)"
proof (induction k arbitrary: s)
  case 0
  then show ?case by simp
next
  case (Suc k)
  show ?case
  proof (cases "Index_str s sep")
    case None
    with Suc.prems show ?thesis by simp
  next
    case (Some m)
    with Suc.prems have "w = take m s \<or> w \<in> set (butlast (splitLoop k (drop (m + length sep) s) sep))"
      by (simp add: splitLoop_not_Nil)
    then show ?thesis
    proof
      assume w: "w = take m s"
      from Index_str_bound [OF Some] have "length (take m s) = m" by simp
      with Index_str_restrict [OF Some] w show ?thesis by simp
    next
      assume "w \<in> set (butlast (splitLoop k (drop (m + length sep) s) sep))"
      then show ?thesis by (rule Suc.IH)
    qed
  qed
qed

lemma boundedSplit_unique:
  "sep \<noteq> [] \<Longrightarrow> boundedSplit (Suc k) sep s ws \<Longrightarrow> ws = splitLoop k s sep"
proof (induction k arbitrary: s ws)
  case 0
  then have "ws \<noteq> []" "length ws \<le> 1" "Join ws sep = s"
    by (simp_all add: boundedSplit_def)
  then obtain w where "ws = [w]" by (cases ws) auto
  with \<open>Join ws sep = s\<close> show ?case by simp
next
  case (Suc k)
  from Suc.prems(2) have p: "ws \<noteq> []" "length ws \<le> Suc (Suc k)" "Join ws sep = s"
    "\<forall>w \<in> set (butlast ws). Index_str (w @ sep) sep = Some (length w)"
    "length ws < Suc (Suc k) \<longrightarrow> \<not> Contains (last ws) sep"
    by (simp_all add: boundedSplit_def)
  from p(1) obtain w ws' where ws: "ws = w # ws'" by (cases ws) auto
  show ?case
  proof (cases "ws' = []")
    case True
    with ws p(3,5) have "s = w" "\<not> Contains s sep" by simp_all
    then have "Index_str s sep = None" by (simp add: Contains_def)
    with True ws \<open>s = w\<close> show ?thesis by simp
  next
    case False
    let ?s' = "Join ws' sep"
    from False ws p(3) have s: "s = w @ sep @ ?s'" by (simp add: Join_Cons)
    from False ws p(4) have "Index_str (w @ sep) sep = Some (length w)" by simp
    then have ix: "Index_str s sep = Some (length w)"
      unfolding s by (rule Index_str_extend)
    have "boundedSplit (Suc k) sep ?s' ws'"
      using False ws p(2,4,5) by (auto simp: boundedSplit_def)
    with Suc.IH [OF Suc.prems(1)] have "ws' = splitLoop k ?s' sep" by blast
    moreover have "take (length w) s = w" "drop (length w + length sep) s = ?s'"
      by (simp_all add: s)
    ultimately show ?thesis using ix ws by simp
  qed
qed

lemma boundedSplit_splitLoop:
  assumes "sep \<noteq> []" and "ws = splitLoop k s sep"
    and "length ws \<le> n" and "length ws < n \<longrightarrow> \<not> Contains (last ws) sep"
  shows "boundedSplit n sep s ws"
  using assms
  by (simp add: boundedSplit_def splitLoop_not_Nil Join_splitLoop butlast_splitLoop_leftmost)

subsection \<open>The unfiltered branch of Run\<close>

lemma sendsBeforeEnd_0: "sendsBeforeEnd sel i 0 = 0"
  by (simp add: sendsBeforeEnd_def)

lemma sendsBeforeEnd_Suc:
  "sendsBeforeEnd sel i (Suc n) =
     (if sel i = SendOut then Suc (sendsBeforeEnd sel (Suc i) n) else 0)"
proof -
  have "[i..<i + Suc n] = i # [Suc i..<Suc i + n]"
    by (simp add: upt_conv_Cons del: upt_Suc)
  then show ?thesis
    unfolding sendsBeforeEnd_def by (simp del: upt_Suc)
qed

lemma sendsBeforeEnd_le: "sendsBeforeEnd sel i n \<le> n"
  unfolding sendsBeforeEnd_def
  using length_takeWhile_le [of "\<lambda>k. sel k = SendOut" "[i..<i + n]"] by simp

lemma sendAll_eq:
  "sendAll sel i outs data w =
     (sendsBeforeEnd sel i (length outs) < length outs,
      w\<lparr>sent := sent w @ map (\<lambda>out. (out, data)) (take (sendsBeforeEnd sel i (length outs)) outs),
        filterHandledTotal :=
          filterHandledTotal w + int (sendsBeforeEnd sel i (length outs))\<rparr>)"
proof (induction outs arbitrary: i w)
  case Nil
  show ?case by (simp add: sendsBeforeEnd_0)
next
  case (Cons out outs)
  show ?case
  proof (cases "sel i")
    case RecvEnd
    then show ?thesis by (simp add: sendsBeforeEnd_Suc)
  next
    case SendOut
    then show ?thesis
      by (simp add: sendsBeforeEnd_Suc Cons.IH send_def)
  qed
qed

lemma rangeMap_dom:
  "set ks \<subseteq> dom m \<Longrightarrow> map snd (rangeMap m ks) = map (\<lambda>k. the (m k)) ks"
  by (induction ks) (auto simp: rangeMap_def)

lemma sendsBeforeEnd_all:
  "(\<And>k. k < n \<Longrightarrow> sel (i + k) = SendOut) \<Longrightarrow> sendsBeforeEnd sel i n = n"
proof (induction n arbitrary: i)
  case 0
  show ?case by (simp add: sendsBeforeEnd_0)
next
  case (Suc n)
  from Suc.prems [of 0] have "sel i = SendOut" by simp
  moreover have "sel (Suc i + k) = SendOut" if "k < n" for k
    using Suc.prems [of "Suc k"] that by simp
  ultimately show ?case using Suc.IH [of "Suc i"] by (simp add: sendsBeforeEnd_Suc)
qed

lemma sendsBeforeEnd_stop:
  "(\<And>k. k < j \<Longrightarrow> sel (i + k) = SendOut) \<Longrightarrow> sel (i + j) = RecvEnd \<Longrightarrow> j < n \<Longrightarrow>
     sendsBeforeEnd sel i n = j"
proof (induction j arbitrary: i n)
  case 0
  then obtain m where "n = Suc m" by (cases n) simp_all
  with 0 show ?case by (simp add: sendsBeforeEnd_Suc)
next
  case (Suc j)
  from Suc.prems(3) obtain m where n: "n = Suc m" and m: "j < m" by (cases n) simp_all
  from Suc.prems(1) [of 0] have "sel i = SendOut" by simp
  moreover have "sel (Suc i + k) = SendOut" if "k < j" for k
    using Suc.prems(1) [of "Suc k"] that by simp
  moreover from Suc.prems(2) have "sel (Suc i + j) = RecvEnd" by simp
  ultimately show ?case using Suc.IH [of "Suc i" m] m by (simp add: n sendsBeforeEnd_Suc)
qed

lemma twoOutputs_fields:
  "Outs twoOutputs = [''p'' \<mapsto> 1, ''q'' \<mapsto> 2]"
  "Filters.Delimiter twoOutputs = '',''"
  "filterMaxIndex twoOutputs = 1"
  "TaskNodeList twoOutputs = [''p'' \<mapsto> [10], ''q'' \<mapsto> [20]]"
  "taskConfigMaps twoOutputs =
     [''p'' \<mapsto> ruleSet ''p'' True [[cond 1 ''eq'' ''A'']], ''q'' \<mapsto> ruleSet ''q'' False []]"
  by (simp_all add: twoOutputs_def instanceOf_def attach_def AddOutput_def AddTaskNode_def
      MergeFilterConfig_def emptyFilters_def ruleSet_def cond_def)

text \<open>
  Claim C4, as the code has it. When the event has no string field \<open>data\<close> (the type
  assertion fails) or the delimiter of the instance is empty, \<open>Run\<close> evaluates no rule
  and drops nothing: it sends the event to the channel of every registered consumer,
  once each, in the order of the iteration, until a \<^verbatim>\<open>select\<close> receives from
  \<^verbatim>\<open>f.End\<close>; every completed send adds one to \<open>filterHandledTotal\<close>, and \<open>Run\<close>
  returns at once when \<^verbatim>\<open>f.End\<close> is received, the remaining consumers getting
  nothing.
\<close>

theorem handleEvent_forward_all:
  assumes "\<not> snd (dataText data) \<or> Filters.Delimiter f = []"
    and "distinct outsOrder" and "set outsOrder = dom (Outs f)"
  shows "handleEvent getOperation sel outsOrder cfgOrder f data w =
           (sendsBeforeEnd sel 0 (length outsOrder) < length outsOrder,
            w\<lparr>sent := sent w @ map (\<lambda>k. (the (Outs f k), data))
                                 (take (sendsBeforeEnd sel 0 (length outsOrder)) outsOrder),
              filterHandledTotal :=
                filterHandledTotal w + int (sendsBeforeEnd sel 0 (length outsOrder))\<rparr>)
         \<and> ((\<forall>k < length outsOrder. sel k = SendOut) \<longrightarrow>
              handleEvent getOperation sel outsOrder cfgOrder f data w =
                (False,
                 w\<lparr>sent := sent w @ map (\<lambda>k. (the (Outs f k), data)) outsOrder,
                   filterHandledTotal := filterHandledTotal w + int (length outsOrder)\<rparr>))
         \<and> sendsBeforeEnd sel 0 (length outsOrder) \<le> length outsOrder
         \<and> (\<forall>j < length outsOrder.
               (\<forall>k < j. sel k = SendOut) \<and> sel j = RecvEnd \<longrightarrow>
               sendsBeforeEnd sel 0 (length outsOrder) = j)"
proof -
  let ?n = "length outsOrder"
  from assms(3) have sub: "set outsOrder \<subseteq> dom (Outs f)" by simp
  have len: "length (map snd (rangeMap (Outs f) outsOrder)) = ?n"
    by (simp add: rangeMap_dom [OF sub])
  from assms(1) have "handleEvent getOperation sel outsOrder cfgOrder f data w
      = sendAll sel 0 (map snd (rangeMap (Outs f) outsOrder)) data w"
    by (auto simp: handleEvent_def split: prod.splits)
  also have "\<dots> = (sendsBeforeEnd sel 0 ?n < ?n,
            w\<lparr>sent := sent w @ map (\<lambda>k. (the (Outs f k), data))
                                 (take (sendsBeforeEnd sel 0 ?n) outsOrder),
              filterHandledTotal := filterHandledTotal w + int (sendsBeforeEnd sel 0 ?n)\<rparr>)"
    unfolding sendAll_eq len by (simp add: rangeMap_dom [OF sub] take_map o_def)
  finally have 1: "handleEvent getOperation sel outsOrder cfgOrder f data w =
      (sendsBeforeEnd sel 0 ?n < ?n,
            w\<lparr>sent := sent w @ map (\<lambda>k. (the (Outs f k), data))
                                 (take (sendsBeforeEnd sel 0 ?n) outsOrder),
              filterHandledTotal := filterHandledTotal w + int (sendsBeforeEnd sel 0 ?n)\<rparr>)" .
  have 2: "(\<forall>k < ?n. sel k = SendOut) \<longrightarrow>
      handleEvent getOperation sel outsOrder cfgOrder f data w =
        (False, w\<lparr>sent := sent w @ map (\<lambda>k. (the (Outs f k), data)) outsOrder,
                  filterHandledTotal := filterHandledTotal w + int ?n\<rparr>)"
  proof
    assume "\<forall>k < ?n. sel k = SendOut"
    then have "sendsBeforeEnd sel 0 ?n = ?n"
      by (intro sendsBeforeEnd_all) simp
    with 1 show "handleEvent getOperation sel outsOrder cfgOrder f data w =
        (False, w\<lparr>sent := sent w @ map (\<lambda>k. (the (Outs f k), data)) outsOrder,
                  filterHandledTotal := filterHandledTotal w + int ?n\<rparr>)"
      by simp
  qed
  have 4: "\<forall>j < ?n. (\<forall>k < j. sel k = SendOut) \<and> sel j = RecvEnd \<longrightarrow> sendsBeforeEnd sel 0 ?n = j"
  proof (intro allI impI)
    fix j assume j: "j < ?n" and h: "(\<forall>k < j. sel k = SendOut) \<and> sel j = RecvEnd"
    from h have "\<And>k. k < j \<Longrightarrow> sel (0 + k) = SendOut" and "sel (0 + j) = RecvEnd" by simp_all
    then show "sendsBeforeEnd sel 0 ?n = j" using j by (rule sendsBeforeEnd_stop)
  qed
  show ?thesis
    by (intro conjI 1 2 4 sendsBeforeEnd_le)
qed

theorem handleEvent_forward_all_witness:
  "\<not> snd (dataText noLineEvent)
   \<and> distinct [''q'', ''p'']
   \<and> set [''q'', ''p''] = dom (Outs twoOutputs)
   \<and> handleEvent eqCatalog (\<lambda>k. SendOut) [''q'', ''p''] [''p'', ''q''] twoOutputs noLineEvent world0
       = (False, world0\<lparr>sent := [(2, noLineEvent), (1, noLineEvent)], filterHandledTotal := 2\<rparr>)
   \<and> handleEvent eqCatalog (\<lambda>k. if k = 1 then RecvEnd else SendOut) [''q'', ''p''] [''p'', ''q'']
         twoOutputs noLineEvent world0
       = (True, world0\<lparr>sent := [(2, noLineEvent)], filterHandledTotal := 1\<rparr>)"
proof -
  have a: "\<not> snd (dataText noLineEvent)"
    by (simp add: dataText_def noLineEvent_def)
  then have a': "\<not> snd (dataText noLineEvent) \<or> Filters.Delimiter twoOutputs = []" ..
  have b: "distinct [''q'', ''p'']" by simp
  have c: "set [''q'', ''p''] = dom (Outs twoOutputs)"
    by (auto simp: twoOutputs_fields)
  have n1: "sendsBeforeEnd (\<lambda>k. SendOut) 0 (length [''q'', ''p'']) = 2"
    by (simp add: sendsBeforeEnd_Suc sendsBeforeEnd_0)
  have n2: "sendsBeforeEnd (\<lambda>k. if k = 1 then RecvEnd else SendOut) 0 (length [''q'', ''p'']) = 1"
    by (simp add: sendsBeforeEnd_Suc sendsBeforeEnd_0)
  have w0: "sent world0 = []" "filterHandledTotal world0 = 0"
    by (simp_all add: world0_def)
  from handleEvent_forward_all [OF a' b c, of eqCatalog "\<lambda>k. SendOut" "[''p'', ''q'']" world0,
      THEN conjunct1]
  have d: "handleEvent eqCatalog (\<lambda>k. SendOut) [''q'', ''p''] [''p'', ''q''] twoOutputs noLineEvent world0
       = (False, world0\<lparr>sent := [(2, noLineEvent), (1, noLineEvent)], filterHandledTotal := 2\<rparr>)"
    unfolding n1 by (simp add: twoOutputs_fields w0)
  from handleEvent_forward_all [OF a' b c, of eqCatalog "\<lambda>k. if k = 1 then RecvEnd else SendOut"
      "[''p'', ''q'']" world0, THEN conjunct1]
  have e: "handleEvent eqCatalog (\<lambda>k. if k = 1 then RecvEnd else SendOut) [''q'', ''p''] [''p'', ''q'']
         twoOutputs noLineEvent world0
       = (True, world0\<lparr>sent := [(2, noLineEvent)], filterHandledTotal := 1\<rparr>)"
    unfolding n2 by (simp add: twoOutputs_fields w0)
  show ?thesis by (intro conjI a b c d e)
qed

text \<open>
  Claim C4, as it is stated, fails for an event whose raw line is the empty string
  while the delimiter is not empty: the type assertion succeeds, the rules are
  evaluated on the single empty column, and the event is dropped for the consumer
  whose rule asks for \<open>A\<close> in column 1: only the consumer without a filter receives it.
\<close>

theorem handleEvent_empty_line_counterexample:
  "dataText (lineEvent []) = ([], True)
   \<and> Outs twoOutputs ''p'' = Some 1
   \<and> Outs twoOutputs ''q'' = Some 2
   \<and> handleEvent eqCatalog (\<lambda>k. SendOut) [''q'', ''p''] [''p'', ''q''] twoOutputs
         (lineEvent []) world0
       = (False,
          world0\<lparr>sent := [(2, lineEvent [])], filterHandledTotal := 1,
                 filterDroppedTotal := 1, CrawlerDropped := 1,
                 nodeCrawlerDropped := (\<lambda>t. 0)(10 := 1)\<rparr>)"
proof -
  have a: "dataText (lineEvent []) = ([], True)"
    by (simp add: dataText_def lineEvent_def)
  have w: "splitWords twoOutputs [] = [[]]"
    by (simp add: splitWords_def twoOutputs_fields int64_def SplitN_def Let_def)
  have r: "rangeMap (taskConfigMaps twoOutputs) [''p'', ''q'']
      = [(''p'', ruleSet ''p'' True [[cond 1 ''eq'' ''A'']]), (''q'', ruleSet ''q'' False [])]"
    by (simp add: rangeMap_def twoOutputs_fields)
  have h: "Handle eqCatalog [[]] [] (ruleSet ''p'' True [[cond 1 ''eq'' ''A'']])
      (Event (lineEvent [])) = None"
    by (simp add: Handle_def ruleSet_def cond_def checkCondition_def eqCatalog_def)
  have h': "Handle eqCatalog [[]] [] (ruleSet ''q'' False []) (Event (lineEvent []))
      = Some (Event (lineEvent []))"
    by (simp add: Handle_def ruleSet_def)
  have w0: "sent world0 = []" "filterHandledTotal world0 = 0"
    by (simp_all add: world0_def)
  have d: "dropped twoOutputs ''p'' world0
      = world0\<lparr>filterDroppedTotal := 1, CrawlerDropped := 1,
               nodeCrawlerDropped := (\<lambda>t. 0)(10 := 1)\<rparr>"
    by (simp add: dropped_def twoOutputs_fields world0_def)
  have "handleEvent eqCatalog (\<lambda>k. SendOut) [''q'', ''p''] [''p'', ''q''] twoOutputs
         (lineEvent []) world0
       = (False,
          world0\<lparr>sent := [(2, lineEvent [])], filterHandledTotal := 1,
                 filterDroppedTotal := 1, CrawlerDropped := 1,
                 nodeCrawlerDropped := (\<lambda>t. 0)(10 := 1)\<rparr>)"
    by (simp add: handleEvent_def a twoOutputs_fields(1,2) w r h h' d send_def w0)
  with a show ?thesis by (simp add: twoOutputs_fields)
qed

subsection \<open>The registry\<close>

lemma fold_upd_other:
  "k \<notin> key ` set xs \<Longrightarrow> fold (\<lambda>x m. m(key x \<mapsto> val x)) xs m k = m k"
  by (induction xs arbitrary: m) simp_all

lemma fold_upd_dom:
  "dom (fold (\<lambda>x m. m(key x \<mapsto> val x)) xs m) = dom m \<union> key ` set xs"
  by (induction xs arbitrary: m) auto

lemma fold_upd_get:
  "distinct (map key xs) \<Longrightarrow> x \<in> set xs \<Longrightarrow>
     fold (\<lambda>x m. m(key x \<mapsto> val x)) xs m (key x) = Some (val x)"
proof (induction xs arbitrary: m)
  case Nil
  then show ?case by simp
next
  case (Cons y ys)
  show ?case
  proof (cases "x = y")
    case True
    with Cons.prems(1) have "key x \<notin> key ` set ys" by simp
    then have "fold (\<lambda>x m. m(key x \<mapsto> val x)) ys (m(key y \<mapsto> val y)) (key x)
        = (m(key y \<mapsto> val y)) (key x)"
      by (rule fold_upd_other)
    also have "\<dots> = Some (val x)" using True by simp
    finally show ?thesis using True by (simp del: fun_upd_apply)
  next
    case False
    with Cons.prems have "x \<in> set ys" "distinct (map key ys)" by simp_all
    with Cons.IH show ?thesis by simp
  qed
qed

lemma attach_fields:
  "taskConfigMaps (attach cfg c t f) = (taskConfigMaps f)(ProcessorID cfg \<mapsto> cfg)"
  "Outs (attach cfg c t f) = (Outs f)(ProcessorID cfg \<mapsto> c)"
  "ID (attach cfg c t f) = ID f"
  "Filters.Delimiter (attach cfg c t f) = Filters.Delimiter f"
  by (simp_all add: attach_def AddOutput_def AddTaskNode_def MergeFilterConfig_def Let_def)

lemma attachAll_fields:
  "taskConfigMaps (attachAll chan calls f)
     = fold (\<lambda>x m. m(ProcessorID (fst x) \<mapsto> fst x)) calls (taskConfigMaps f)"
  "Outs (attachAll chan calls f)
     = fold (\<lambda>x m. m(ProcessorID (fst x) \<mapsto> chan (fst x))) calls (Outs f)"
  "ID (attachAll chan calls f) = ID f"
  "Filters.Delimiter (attachAll chan calls f) = Filters.Delimiter f"
  by (induction calls arbitrary: f) (simp_all add: attachAll_def attach_fields split: prod.splits)

lemma GetFilters_found:
  assumes "filterMaps reg (FilterID cfg) = Some a" and "instances reg a = Some f"
    and "GP cfg t = Inr \<lparr>nodeID = ProcessorID cfg, nodeIn = c\<rparr>"
  shows "GetFilters GP NP cfg t reg
           = (Inr a, reg\<lparr>instances := (instances reg)(a \<mapsto> attach cfg c t f)\<rparr>)"
  using assms by (simp add: GetFilters_def lookupFilter_def afterLookup_def attach_def)

lemma GetFilters_new:
  assumes "filterMaps reg (FilterID cfg) = None"
    and "NP cfg t = Inr \<lparr>nodeID = ProcessorID cfg, nodeIn = c\<rparr>"
  shows "GetFilters GP NP cfg t reg
           = (Inr (nextAddr reg),
              reg\<lparr>instances := (instances reg)(nextAddr reg \<mapsto> instanceOf cfg c t),
                  nextAddr := Suc (nextAddr reg),
                  started := started reg @ [nextAddr reg],
                  filterMaps := (filterMaps reg)(FilterID cfg \<mapsto> nextAddr reg),
                  numOfFilterTotal := numOfFilterTotal reg + 1\<rparr>)"
  using assms
  by (simp add: GetFilters_def lookupFilter_def afterLookup_def NewFilters_def instanceOf_def
      attach_def Let_def)

lemma getFiltersSeq_found:
  assumes "filterMaps reg fid = Some a" and "instances reg a = Some f"
    and "\<forall>(cfg, t) \<in> set calls.
           FilterID cfg = fid \<and> GP cfg t = Inr \<lparr>nodeID = ProcessorID cfg, nodeIn = chan cfg\<rparr>"
  shows "getFiltersSeq GP NP calls reg
           = (replicate (length calls) (Inr a),
              reg\<lparr>instances := (instances reg)(a \<mapsto> attachAll chan calls f)\<rparr>)"
  using assms
proof (induction calls arbitrary: reg f)
  case Nil
  then have "(instances reg)(a \<mapsto> f) = instances reg" by (simp add: map_upd_triv)
  then show ?case by (simp add: attachAll_def)
next
  case (Cons call calls)
  obtain cfg t where call: "call = (cfg, t)" by (cases call)
  let ?reg1 = "reg\<lparr>instances := (instances reg)(a \<mapsto> attach cfg (chan cfg) t f)\<rparr>"
  from Cons.prems(3) call have c: "FilterID cfg = fid"
    "GP cfg t = Inr \<lparr>nodeID = ProcessorID cfg, nodeIn = chan cfg\<rparr>" by simp_all
  from Cons.prems(1) c(1) have "filterMaps reg (FilterID cfg) = Some a" by simp
  then have g: "GetFilters GP NP cfg t reg = (Inr a, ?reg1)"
    using Cons.prems(2) c(2) by (rule GetFilters_found)
  let ?f2 = "attachAll chan calls (attach cfg (chan cfg) t f)"
  have "getFiltersSeq GP NP calls ?reg1
      = (replicate (length calls) (Inr a), ?reg1\<lparr>instances := (instances ?reg1)(a \<mapsto> ?f2)\<rparr>)"
    using Cons.prems by (intro Cons.IH) simp_all
  moreover have "?reg1\<lparr>instances := (instances ?reg1)(a \<mapsto> ?f2)\<rparr>
      = reg\<lparr>instances := (instances reg)(a \<mapsto> ?f2)\<rparr>"
    by (simp del: fun_upd_apply)
  moreover have "?f2 = attachAll chan (call # calls) f"
    by (simp add: attachAll_def call)
  ultimately show ?case using g call by (simp del: fun_upd_apply)
qed

lemma instanceOf_attachAll:
  "attachAll chan calls (instanceOf cfg (chan cfg) t) = attachAll chan ((cfg, t) # calls) (emptyFilters cfg)"
  by (simp add: attachAll_def instanceOf_def)

lemma ruleSet_fields:
  "FilterID (ruleSet pid has groups) = ''f''"
  "ProcessorID (ruleSet pid has groups) = pid"
  by (simp_all add: ruleSet_def)

lemma instanceOf_fields:
  "ID (instanceOf cfg c t) = FilterID cfg"
  "taskConfigMaps (instanceOf cfg c t) = [ProcessorID cfg \<mapsto> cfg]"
  "Outs (instanceOf cfg c t) = [ProcessorID cfg \<mapsto> c]"
  by (simp_all add: instanceOf_def attach_fields emptyFilters_def)

lemma oneRegistered_eq:
  "oneRegistered =
     \<lparr>instances = [0 \<mapsto> instanceOf (ruleSet ''p'' True [[cond 1 ''eq'' ''A'']]) ''p'' 10],
      nextAddr = 1, started = [0], filterMaps = [''f'' \<mapsto> 0], numOfFilterTotal = 1\<rparr>"
proof -
  have "GetFilters (okProcessors ProcessorID) (okProcessors ProcessorID)
          (ruleSet ''p'' True [[cond 1 ''eq'' ''A'']]) 10 registry0
        = (Inr (nextAddr registry0),
           registry0\<lparr>instances := (instances registry0)(nextAddr registry0 \<mapsto>
                         instanceOf (ruleSet ''p'' True [[cond 1 ''eq'' ''A'']]) ''p'' 10),
                  nextAddr := Suc (nextAddr registry0),
                  started := started registry0 @ [nextAddr registry0],
                  filterMaps := (filterMaps registry0)
                     (FilterID (ruleSet ''p'' True [[cond 1 ''eq'' ''A'']]) \<mapsto> nextAddr registry0),
                  numOfFilterTotal := numOfFilterTotal registry0 + 1\<rparr>)"
    by (rule GetFilters_new) (simp_all add: registry0_def okProcessors_def ruleSet_fields)
  then show ?thesis
    by (simp add: oneRegistered_def registry0_def ruleSet_fields)
qed

lemma raced_eq:
  "getFiltersRace (okProcessors ProcessorID) (okProcessors ProcessorID)
     (ruleSet ''p'' True [[cond 1 ''eq'' ''A'']]) 10 (ruleSet ''q'' False []) 20 registry0
   = ((Inr 0, Inr 1),
      \<lparr>instances = [0 \<mapsto> instanceOf (ruleSet ''p'' True [[cond 1 ''eq'' ''A'']]) ''p'' 10,
                    1 \<mapsto> instanceOf (ruleSet ''q'' False []) ''q'' 20],
       nextAddr = 2, started = [0, 1], filterMaps = [''f'' \<mapsto> 1], numOfFilterTotal = 2\<rparr>)"
  by (simp add: getFiltersRace_def lookupFilter_def afterLookup_def NewFilters_def registry0_def
      okProcessors_def instanceOf_def attach_def ruleSet_fields Let_def)

text \<open>
  Claim C9, as the code has it. When the consumers of one filter call \<open>GetFilters\<close>
  one after the other (each call returns before the next starts), the filter is not
  registered before, the consumers have different identifiers and their processors are
  built without error, then every call returns the same instance: it is the one
  instance started and registered by these calls, the counter of instances goes up by
  one, and the instance holds the rule set and the endpoint of each of the consumers
  under its identifier, and nothing else.
\<close>

theorem getFiltersSeq_one_instance:
  assumes "filterMaps reg fid = None"
    and "calls \<noteq> []"
    and "\<forall>(cfg, t) \<in> set calls.
           FilterID cfg = fid
           \<and> GP cfg t = Inr \<lparr>nodeID = ProcessorID cfg, nodeIn = chan cfg\<rparr>
           \<and> NP cfg t = Inr \<lparr>nodeID = ProcessorID cfg, nodeIn = chan cfg\<rparr>"
    and "distinct (consumerIDs calls)"
  shows "\<exists>reg' f.
           getFiltersSeq GP NP calls reg = (replicate (length calls) (Inr (nextAddr reg)), reg')
           \<and> filterMaps reg' = (filterMaps reg)(fid \<mapsto> nextAddr reg)
           \<and> started reg' = started reg @ [nextAddr reg]
           \<and> numOfFilterTotal reg' = numOfFilterTotal reg + 1
           \<and> instances reg' = (instances reg)(nextAddr reg \<mapsto> f)
           \<and> ID f = fid
           \<and> dom (taskConfigMaps f) = set (consumerIDs calls)
           \<and> dom (Outs f) = set (consumerIDs calls)
           \<and> card (dom (taskConfigMaps f)) = length calls
           \<and> card (dom (Outs f)) = length calls
           \<and> (\<forall>(cfg, t) \<in> set calls.
                 taskConfigMaps f (ProcessorID cfg) = Some cfg
                 \<and> Outs f (ProcessorID cfg) = Some (chan cfg))"
proof -
  from assms(2) obtain call rest where calls: "calls = call # rest" by (cases calls) auto
  obtain cfg0 t0 where call: "call = (cfg0, t0)" by (cases call)
  let ?a = "nextAddr reg"
  let ?reg1 = "reg\<lparr>instances := (instances reg)(?a \<mapsto> instanceOf cfg0 (chan cfg0) t0),
                  nextAddr := Suc ?a,
                  started := started reg @ [?a],
                  filterMaps := (filterMaps reg)(FilterID cfg0 \<mapsto> ?a),
                  numOfFilterTotal := numOfFilterTotal reg + 1\<rparr>"
  let ?f = "attachAll chan calls (emptyFilters cfg0 :: ('a, 'b) Filters)"
  let ?reg2 = "?reg1\<lparr>instances := (instances ?reg1)(?a \<mapsto> ?f)\<rparr>"
  from assms(3) calls call have c0: "FilterID cfg0 = fid"
    "NP cfg0 t0 = Inr \<lparr>nodeID = ProcessorID cfg0, nodeIn = chan cfg0\<rparr>" by simp_all
  from assms(1) c0(1) have "filterMaps reg (FilterID cfg0) = None" by simp
  then have first: "GetFilters GP NP cfg0 t0 reg = (Inr ?a, ?reg1)"
    using c0(2) by (rule GetFilters_new)
  have r: "\<forall>(cfg, t) \<in> set rest.
      FilterID cfg = fid \<and> GP cfg t = Inr \<lparr>nodeID = ProcessorID cfg, nodeIn = chan cfg\<rparr>"
    using assms(3) calls by auto
  have "filterMaps ?reg1 fid = Some ?a" using c0(1) by simp
  moreover have "instances ?reg1 ?a = Some (instanceOf cfg0 (chan cfg0) t0)" by simp
  ultimately have "getFiltersSeq GP NP rest ?reg1
      = (replicate (length rest) (Inr ?a),
         ?reg1\<lparr>instances := (instances ?reg1)(?a \<mapsto>
                   attachAll chan rest (instanceOf cfg0 (chan cfg0) t0))\<rparr>)"
    using r by (rule getFiltersSeq_found)
  then have rest: "getFiltersSeq GP NP rest ?reg1 = (replicate (length rest) (Inr ?a), ?reg2)"
    by (simp only: instanceOf_attachAll calls call)
  from first rest have seq: "getFiltersSeq GP NP calls reg
      = (replicate (length calls) (Inr ?a), ?reg2)"
    by (simp add: calls call)
  have tcm: "taskConfigMaps ?f
      = fold (\<lambda>x m. m(ProcessorID (fst x) \<mapsto> fst x)) calls Map.empty"
    by (simp add: attachAll_fields emptyFilters_def)
  have outs: "Outs ?f = fold (\<lambda>x m. m(ProcessorID (fst x) \<mapsto> chan (fst x))) calls Map.empty"
    by (simp add: attachAll_fields emptyFilters_def)
  have d1: "dom (taskConfigMaps ?f) = set (consumerIDs calls)"
    unfolding tcm fold_upd_dom by (simp add: consumerIDs_def)
  have d2: "dom (Outs ?f) = set (consumerIDs calls)"
    unfolding outs fold_upd_dom by (simp add: consumerIDs_def)
  have cd: "card (set (consumerIDs calls)) = length calls"
    using distinct_card [OF assms(4)] by (simp add: consumerIDs_def)
  from assms(4) have dist: "distinct (map (\<lambda>x. ProcessorID (fst x)) calls)"
    by (simp add: consumerIDs_def)
  have each: "\<forall>(cfg, t) \<in> set calls.
      taskConfigMaps ?f (ProcessorID cfg) = Some cfg \<and> Outs ?f (ProcessorID cfg) = Some (chan cfg)"
  proof (intro ballI, clarify)
    fix cfg t assume m: "(cfg, t) \<in> set calls"
    from fold_upd_get [OF dist m, of fst Map.empty]
    have "taskConfigMaps ?f (ProcessorID cfg) = Some cfg" by (simp add: tcm)
    moreover from fold_upd_get [OF dist m, of "\<lambda>x. chan (fst x)" Map.empty]
    have "Outs ?f (ProcessorID cfg) = Some (chan cfg)" by (simp add: outs)
    ultimately show "taskConfigMaps ?f (ProcessorID cfg) = Some cfg
        \<and> Outs ?f (ProcessorID cfg) = Some (chan cfg)" ..
  qed
  have i: "instances ?reg2 = (instances reg)(?a \<mapsto> ?f)" by (simp del: fun_upd_apply)
  have m: "filterMaps ?reg2 = (filterMaps reg)(fid \<mapsto> ?a)" using c0(1) by simp
  have idf: "ID ?f = fid" using c0(1) by (simp add: attachAll_fields emptyFilters_def)
  have "getFiltersSeq GP NP calls reg = (replicate (length calls) (Inr (nextAddr reg)), ?reg2)
           \<and> filterMaps ?reg2 = (filterMaps reg)(fid \<mapsto> nextAddr reg)
           \<and> started ?reg2 = started reg @ [nextAddr reg]
           \<and> numOfFilterTotal ?reg2 = numOfFilterTotal reg + 1
           \<and> instances ?reg2 = (instances reg)(nextAddr reg \<mapsto> ?f)
           \<and> ID ?f = fid
           \<and> dom (taskConfigMaps ?f) = set (consumerIDs calls)
           \<and> dom (Outs ?f) = set (consumerIDs calls)
           \<and> card (dom (taskConfigMaps ?f)) = length calls
           \<and> card (dom (Outs ?f)) = length calls
           \<and> (\<forall>(cfg, t) \<in> set calls.
                 taskConfigMaps ?f (ProcessorID cfg) = Some cfg
                 \<and> Outs ?f (ProcessorID cfg) = Some (chan cfg))"
    by (intro conjI seq m i idf d1 d2 each) (simp_all add: d1 d2 cd)
  then show ?thesis by blast
qed

theorem getFiltersSeq_one_instance_witness:
  "filterMaps registry0 ''f'' = None
   \<and> distinct (consumerIDs twoCalls)
   \<and> fst (getFiltersSeq (okProcessors ProcessorID) (okProcessors ProcessorID) twoCalls registry0)
       = [Inr 0, Inr 0]
   \<and> filterMaps (snd (getFiltersSeq (okProcessors ProcessorID) (okProcessors ProcessorID)
        twoCalls registry0)) ''f'' = Some 0
   \<and> started (snd (getFiltersSeq (okProcessors ProcessorID) (okProcessors ProcessorID)
        twoCalls registry0)) = [0]
   \<and> numOfFilterTotal (snd (getFiltersSeq (okProcessors ProcessorID) (okProcessors ProcessorID)
        twoCalls registry0)) = 1
   \<and> map_option (\<lambda>f. dom (taskConfigMaps f))
        (instances (snd (getFiltersSeq (okProcessors ProcessorID) (okProcessors ProcessorID)
           twoCalls registry0)) 0) = Some {''p'', ''q''}
   \<and> map_option (\<lambda>f. dom (Outs f))
        (instances (snd (getFiltersSeq (okProcessors ProcessorID) (okProcessors ProcessorID)
           twoCalls registry0)) 0) = Some {''p'', ''q''}"
proof -
  let ?ok = "okProcessors ProcessorID :: (string, nat, unit) processors"
  have a: "filterMaps registry0 ''f'' = None" by (simp add: registry0_def)
  have b: "twoCalls \<noteq> []" by (simp add: twoCalls_def)
  have c: "\<forall>(cfg, t) \<in> set twoCalls.
           FilterID cfg = ''f''
           \<and> ?ok cfg t = Inr \<lparr>nodeID = ProcessorID cfg, nodeIn = ProcessorID cfg\<rparr>
           \<and> ?ok cfg t = Inr \<lparr>nodeID = ProcessorID cfg, nodeIn = ProcessorID cfg\<rparr>"
    by (simp add: twoCalls_def okProcessors_def ruleSet_fields)
  have ids: "consumerIDs twoCalls = [''p'', ''q'']"
    by (simp add: consumerIDs_def twoCalls_def ruleSet_fields)
  then have d: "distinct (consumerIDs twoCalls)" by simp
  have n: "nextAddr registry0 = 0" "started registry0 = []" "numOfFilterTotal registry0 = 0"
    "length twoCalls = 2"
    by (simp_all add: registry0_def twoCalls_def)
  from getFiltersSeq_one_instance [OF a b c d] obtain reg' f where
    r: "getFiltersSeq ?ok ?ok twoCalls registry0
          = (replicate (length twoCalls) (Inr (nextAddr registry0)), reg')"
      "filterMaps reg' = (filterMaps registry0)(''f'' \<mapsto> nextAddr registry0)"
      "started reg' = started registry0 @ [nextAddr registry0]"
      "numOfFilterTotal reg' = numOfFilterTotal registry0 + 1"
      "instances reg' = (instances registry0)(nextAddr registry0 \<mapsto> f)"
      "dom (taskConfigMaps f) = set (consumerIDs twoCalls)"
      "dom (Outs f) = set (consumerIDs twoCalls)"
    by blast
  have two: "replicate 2 x = [x, x]" for x :: "unit + nat"
    by (simp add: numeral_2_eq_2)
  from r show ?thesis
    by (simp add: a d n ids two)
qed

text \<open>
  Claim C9, as it is stated, fails. The lookup of \<open>GetFilters\<close> releases the read lock
  before \<open>NewFilters\<close> takes the write lock, so with two concurrent calls both
  lookups can miss: each call then builds and starts an instance of its own, the
  second registration replaces the first, the counter is 2, and the registered
  instance holds the rule set and the endpoint of the second consumer only.
\<close>

theorem GetFilters_race_counterexample:
  "fst (getFiltersRace (okProcessors ProcessorID) (okProcessors ProcessorID)
          (ruleSet ''p'' True [[cond 1 ''eq'' ''A'']]) 10 (ruleSet ''q'' False []) 20 registry0)
     = (Inr 0, Inr 1)
   \<and> started raced = [0, 1]
   \<and> filterMaps raced ''f'' = Some 1
   \<and> numOfFilterTotal raced = 2
   \<and> map_option (\<lambda>f. dom (taskConfigMaps f)) (instances raced 0) = Some {''p''}
   \<and> map_option (\<lambda>f. dom (taskConfigMaps f)) (instances raced 1) = Some {''q''}
   \<and> map_option (\<lambda>f. dom (Outs f)) (instances raced 1) = Some {''q''}"
  by (simp add: raced_def raced_eq instanceOf_fields ruleSet_fields)

text \<open>
  Claim C5, as the code has it. \<open>RemoveFilter\<close> deletes whatever is registered under
  the identifier and takes one off the counter of instances, whether or not the key is
  present and whichever instance the slot holds; nothing else of the registry changes.
  The \<open>Run\<close> of an instance that returns calls it with the identifier of the instance.
\<close>

theorem RemoveFilter_unconditional:
  "filterMaps (RemoveFilter id' reg) = (filterMaps reg)(id' := None)
   \<and> numOfFilterTotal (RemoveFilter id' reg) = numOfFilterTotal reg - 1
   \<and> instances (RemoveFilter id' reg) = instances reg
   \<and> started (RemoveFilter id' reg) = started reg
   \<and> (\<forall>a f. instances reg a = Some f \<longrightarrow>
         runExit a reg = RemoveFilter (ID f) reg
         \<and> filterMaps (runExit a reg) (ID f) = None
         \<and> numOfFilterTotal (runExit a reg) = numOfFilterTotal reg - 1)"
  by (simp add: RemoveFilter_def runExit_def)

theorem RemoveFilter_unconditional_witness:
  "map_option ID (instances oneRegistered 0) = Some ''f''
   \<and> filterMaps oneRegistered ''f'' = Some 0
   \<and> filterMaps (runExit 0 oneRegistered) ''f'' = None
   \<and> numOfFilterTotal (runExit 0 oneRegistered) = 0"
proof -
  let ?inst = "instanceOf (ruleSet ''p'' True [[cond 1 ''eq'' ''A'']]) ''p'' (10::nat)
    :: (string, nat) Filters"
  have i: "instances oneRegistered 0 = Some ?inst"
    by (simp add: oneRegistered_eq)
  have idf: "ID ?inst = ''f''"
    by (simp add: instanceOf_fields ruleSet_fields)
  have fm: "filterMaps oneRegistered ''f'' = Some 0" and num: "numOfFilterTotal oneRegistered = 1"
    by (simp_all add: oneRegistered_eq)
  from RemoveFilter_unconditional [of "''f''" oneRegistered, THEN conjunct2, THEN conjunct2,
      THEN conjunct2, THEN conjunct2, rule_format, OF i]
  have "filterMaps (runExit 0 oneRegistered) (ID ?inst) = None"
    and "numOfFilterTotal (runExit 0 oneRegistered) = numOfFilterTotal oneRegistered - 1"
    by blast+
  then have e: "filterMaps (runExit 0 oneRegistered) ''f'' = None"
    "numOfFilterTotal (runExit 0 oneRegistered) = 0"
    unfolding idf num by simp_all
  from i idf have m: "map_option ID (instances oneRegistered 0) = Some ''f''" by simp
  show ?thesis by (intro conjI m fm e)
qed

text \<open>
  Claim C5, as it is stated, fails: no identity is verified. In the registry left by
  two concurrent calls the slot of \<open>f\<close> holds the newer instance 1; when the older
  instance 0 returns from \<open>Run\<close>, its \<open>RemoveFilter\<close> deletes the slot, and the
  instance 1, still running, is no longer registered.
\<close>

theorem RemoveFilter_identity_counterexample:
  "map_option ID (instances raced 0) = Some ''f''
   \<and> filterMaps raced ''f'' = Some 1
   \<and> filterMaps (runExit 0 raced) ''f'' = None
   \<and> started (runExit 0 raced) = [0, 1]
   \<and> numOfFilterTotal (runExit 0 raced) = 1"
  by (simp add: raced_def raced_eq runExit_def RemoveFilter_def instanceOf_fields ruleSet_fields)

subsection \<open>The filtered branch of Run\<close>

lemma dropped_fields:
  "sent (dropped f pid w) = sent w"
  "filterHandledTotal (dropped f pid w) = filterHandledTotal w"
  "filterDroppedTotal (dropped f pid w) = filterDroppedTotal w + 1"
proof -
  let ?upd = "\<lambda>tNode (w2 :: ('a, 'b) world).
      w2\<lparr>CrawlerDropped := CrawlerDropped w2 + 1,
         nodeCrawlerDropped := (nodeCrawlerDropped w2)(tNode := nodeCrawlerDropped w2 tNode + 1)\<rparr>"
  have k: "sent (fold ?upd l v) = sent v \<and> filterHandledTotal (fold ?upd l v) = filterHandledTotal v
      \<and> filterDroppedTotal (fold ?upd l v) = filterDroppedTotal v" for l v
    by (induction l arbitrary: v) simp_all
  show "sent (dropped f pid w) = sent w"
    "filterHandledTotal (dropped f pid w) = filterHandledTotal w"
    "filterDroppedTotal (dropped f pid w) = filterDroppedTotal w + 1"
    by (simp_all add: dropped_def Let_def k split: option.splits)
qed

lemma send_fields:
  "sent (send out data w) = sent w @ [(out, data)]"
  "filterHandledTotal (send out data w) = filterHandledTotal w + 1"
  "filterDroppedTotal (send out data w) = filterDroppedTotal w"
  by (simp_all add: send_def)

lemma dispatchAll_all_sent:
  assumes "\<forall>k. sel k = SendOut"
  shows "fst (dispatchAll getOperation sel i f words text entries data w) = False
         \<and> sent (snd (dispatchAll getOperation sel i f words text entries data w))
             = sent w @ map (\<lambda>out. (out, data)) (acceptedOuts getOperation f words text data entries)
         \<and> filterHandledTotal (snd (dispatchAll getOperation sel i f words text entries data w))
             = filterHandledTotal w
               + int (length (acceptedOuts getOperation f words text data entries))
         \<and> filterDroppedTotal (snd (dispatchAll getOperation sel i f words text entries data w))
             = filterDroppedTotal w
               + int (length (rejectedIDs getOperation words text data entries))"
proof (induction entries arbitrary: i w)
  case Nil
  show ?case by (simp add: acceptedOuts_def rejectedIDs_def)
next
  case (Cons e entries)
  obtain pid cfg where e: "e = (pid, cfg)" by (cases e)
  show ?case
  proof (cases "Handle getOperation words text cfg (Event data)")
    case None
    with Cons.IH [of i "dropped f pid w"] show ?thesis
      by (simp add: e acceptedOuts_def rejectedIDs_def dropped_fields)
  next
    case (Some ev)
    show ?thesis
    proof (cases "Outs f pid")
      case None
      with Some Cons.IH [of i w] show ?thesis
        by (simp add: e acceptedOuts_def rejectedIDs_def)
    next
      case (Some out)
      from assms have "sel i = SendOut" by simp
      with Some \<open>Handle getOperation words text cfg (Event data) = Some ev\<close>
        Cons.IH [of "Suc i" "send out data w"] show ?thesis
        by (simp add: e acceptedOuts_def rejectedIDs_def send_fields)
    qed
  qed
qed

lemma splitWords_cong:
  "Filters.Delimiter g = Filters.Delimiter f \<Longrightarrow> filterMaxIndex g = filterMaxIndex f \<Longrightarrow>
     splitWords g s = splitWords f s"
  by (simp add: splitWords_def)


lemma splitWords_boundedSplit:
  assumes "Filters.Delimiter f \<noteq> []"
    and "0 \<le> filterMaxIndex f" and "filterMaxIndex f < 2 ^ 63"
    and "length s < 2 ^ 63"
  shows "boundedSplit (nat (filterMaxIndex f + 1)) (Filters.Delimiter f) s (splitWords f s)"
proof -
  let ?d = "Filters.Delimiter f" and ?n = "int64 (filterMaxIndex f + 1)"
  let ?ws = "splitWords f s"
  note n = splitWords_n [OF assms(2,3)]
  from n have n0: "?n \<noteq> 0" by simp
  note sp = SplitN_bounded [OF assms(1) n0, of s, folded splitWords_def]
  from SplitN_splitLoop [OF assms(1) n0, of s] obtain k where k: "?ws = splitLoop k s ?d"
    unfolding splitWords_def by blast
  have len: "int (length ?ws) \<le> filterMaxIndex f + 1"
  proof (cases "filterMaxIndex f = 2 ^ 63 - 1")
    case True
    from sp(4) assms(4) have "int (length ?ws) \<le> 2 ^ 63" by simp
    with True show ?thesis by simp
  next
    case False
    with assms(3) n have "?n = filterMaxIndex f + 1" by simp
    with assms(2) sp(5) show ?thesis by simp
  qed
  have lst: "int (length ?ws) < filterMaxIndex f + 1 \<longrightarrow> \<not> Contains (last ?ws) ?d"
  proof (cases "filterMaxIndex f = 2 ^ 63 - 1")
    case True
    with n sp(7) show ?thesis by simp
  next
    case False
    with assms(3) n have "?n = filterMaxIndex f + 1" by simp
    with assms(2) sp(6) show ?thesis by simp
  qed
  from len assms(2) have l1: "length ?ws \<le> nat (filterMaxIndex f + 1)" by simp
  from lst assms(2) have l2: "length ?ws < nat (filterMaxIndex f + 1) \<longrightarrow> \<not> Contains (last ?ws) ?d"
    by simp
  from assms(1) k l1 l2 show ?thesis by (rule boundedSplit_splitLoop)
qed

lemma instanceOf_split:
  "Filters.Delimiter (instanceOf cfg c t) = TaskConfig.Delimiter cfg"
  "filterMaxIndex (instanceOf cfg c t :: ('c, 't) Filters)
     = filterMaxIndex (MergeFilterConfig cfg (emptyFilters cfg :: ('c, 't) Filters))"
  "Filters.Delimiter (MergeFilterConfig cfg (emptyFilters cfg)) = TaskConfig.Delimiter cfg"
  by (simp_all add: instanceOf_def attach_def AddOutput_def AddTaskNode_def MergeFilterConfig_def
      emptyFilters_def Let_def)

lemma instanceOf_splitWords:
  "splitWords (instanceOf cfg c t :: ('c, 't) Filters) s
     = splitWords (MergeFilterConfig cfg (emptyFilters cfg :: ('c, 't) Filters)) s"
  by (rule splitWords_cong) (simp_all add: instanceOf_split)

text \<open>
  Claim C8. For a non-empty delimiter, \<open>filterMaxIndex\<close> a non-negative Go \<^verbatim>\<open>int\<close> and
  a line whose length fits an \<^verbatim>\<open>int\<close>, the columns \<open>splitWords f text\<close> are the one
  split of the line by the delimiter into at most \<open>filterMaxIndex + 1\<close> parts, cut at the
  leftmost occurrences, the last part keeping the rest of the line (\<open>boundedSplit\<close>
  holds of them and of no other list). These columns are the ones that \<open>Run\<close> evaluates
  the rules on: when every send completes, the event goes to exactly the consumers
  whose rule set \<open>Handle\<close> accepts on \<open>splitWords f text\<close>, and it is counted dropped for
  the ones whose rule set \<open>Handle\<close> rejects on them. With the line \<open>a,b,c\<close> and the
  delimiter \<open>,\<close>, \<open>Run\<close> on the instance made for a rule on column 3 sends the event
  when the rule's operator holds of \<open>c\<close> and \<open>c\<close>, and \<open>Run\<close> on the instance made for
  a rule on column 4 with a known operator drops it.
\<close>

theorem splitWords_bounded:
  assumes "Filters.Delimiter f \<noteq> []"
    and "0 \<le> filterMaxIndex f" and "filterMaxIndex f < 2 ^ 63"
    and "length text < 2 ^ 63"
  shows "boundedSplit (nat (filterMaxIndex f + 1)) (Filters.Delimiter f) text (splitWords f text)
         \<and> (\<forall>ws. boundedSplit (nat (filterMaxIndex f + 1)) (Filters.Delimiter f) text ws \<longrightarrow>
                ws = splitWords f text)
         \<and> splitWords f text \<noteq> []
         \<and> int (length (splitWords f text)) \<le> filterMaxIndex f + 1
         \<and> Join (splitWords f text) (Filters.Delimiter f) = text
         \<and> (\<forall>w \<in> set (butlast (splitWords f text)). \<not> Contains w (Filters.Delimiter f))
         \<and> (int (length (splitWords f text)) < filterMaxIndex f + 1 \<longrightarrow>
              \<not> Contains (last (splitWords f text)) (Filters.Delimiter f))
         \<and> (dataText data = (text, True) \<and> (\<forall>k. sel k = SendOut) \<longrightarrow>
              fst (handleEvent getOperation sel outsOrder cfgOrder f data w) = False
              \<and> sent (snd (handleEvent getOperation sel outsOrder cfgOrder f data w))
                  = sent w @ map (\<lambda>out. (out, data))
                      (acceptedOuts getOperation f (splitWords f text) text data
                         (rangeMap (taskConfigMaps f) cfgOrder))
              \<and> filterHandledTotal (snd (handleEvent getOperation sel outsOrder cfgOrder f data w))
                  = filterHandledTotal w
                    + int (length (acceptedOuts getOperation f (splitWords f text) text data
                                     (rangeMap (taskConfigMaps f) cfgOrder)))
              \<and> filterDroppedTotal (snd (handleEvent getOperation sel outsOrder cfgOrder f data w))
                  = filterDroppedTotal w
                    + int (length (rejectedIDs getOperation (splitWords f text) text data
                                     (rangeMap (taskConfigMaps f) cfgOrder))))
         \<and> (\<forall>cfg. cfg = ruleSet ''p'' True [[cond 3 ''contains'' ''c'']] \<longrightarrow>
              splitWords (MergeFilterConfig cfg (emptyFilters cfg :: ('c, 't) Filters)) ''a,b,c''
                = [''a'', ''b'', ''c'']
              \<and> (\<forall>operationFunc. getOperation ''contains'' = Some operationFunc \<and>
                     operationFunc ''c'' ''c'' \<longrightarrow>
                   Handle getOperation
                     (splitWords (MergeFilterConfig cfg (emptyFilters cfg :: ('c, 't) Filters))
                        ''a,b,c'')
                     ''a,b,c'' cfg event = Some event
                   \<and> (\<forall>c t. sel 0 = SendOut \<longrightarrow>
                         handleEvent getOperation sel outsOrder [''p'']
                           (instanceOf cfg c t :: ('c, 't) Filters) (lineEvent ''a,b,c'') w
                         = (False, send c (lineEvent ''a,b,c'') w))))
         \<and> (\<forall>cfg op k. cfg = ruleSet ''p'' True [[cond 4 op k]] \<and> getOperation op \<noteq> None \<longrightarrow>
              splitWords (MergeFilterConfig cfg (emptyFilters cfg :: ('c, 't) Filters)) ''a,b,c''
                = [''a'', ''b'', ''c'']
              \<and> Handle getOperation
                   (splitWords (MergeFilterConfig cfg (emptyFilters cfg :: ('c, 't) Filters))
                      ''a,b,c'')
                   ''a,b,c'' cfg event = None
              \<and> (\<forall>c t. handleEvent getOperation sel outsOrder [''p'']
                           (instanceOf cfg c t :: ('c, 't) Filters) (lineEvent ''a,b,c'') w
                         = (False, dropped (instanceOf cfg c t) ''p'' w)))"
proof -
  let ?d = "Filters.Delimiter f"
  let ?ws = "splitWords f text"
  let ?n = "nat (filterMaxIndex f + 1)"
  have bs: "boundedSplit ?n ?d text ?ws"
    using assms by (rule splitWords_boundedSplit)
  from assms(2) have nS: "?n = Suc (nat (filterMaxIndex f))" by simp
  have uq: "\<forall>ws. boundedSplit ?n ?d text ws \<longrightarrow> ws = ?ws"
  proof (intro allI impI)
    fix ws assume "boundedSplit ?n ?d text ws"
    then have "ws = splitLoop (nat (filterMaxIndex f)) text ?d"
      unfolding nS using assms(1) by (intro boundedSplit_unique)
    moreover from bs have "?ws = splitLoop (nat (filterMaxIndex f)) text ?d"
      unfolding nS using assms(1) by (intro boundedSplit_unique)
    ultimately show "ws = ?ws" by simp
  qed
  from bs have ne: "?ws \<noteq> []" and jn: "Join ?ws ?d = text"
    and l1: "length ?ws \<le> ?n" and l2: "length ?ws < ?n \<longrightarrow> \<not> Contains (last ?ws) ?d"
    by (simp_all add: boundedSplit_def)
  from l1 assms(2) have len: "int (length ?ws) \<le> filterMaxIndex f + 1" by simp
  from l2 assms(2) have lst: "int (length ?ws) < filterMaxIndex f + 1 \<longrightarrow> \<not> Contains (last ?ws) ?d"
    by simp
  from splitWords_n [OF assms(2,3)] have n0: "int64 (filterMaxIndex f + 1) \<noteq> 0" by simp
  have bl: "\<forall>w \<in> set (butlast ?ws). \<not> Contains w ?d"
    using SplitN_bounded(3) [OF assms(1) n0, of "text"] by (simp add: splitWords_def)
  have run: "dataText data = (text, True) \<and> (\<forall>k. sel k = SendOut) \<longrightarrow>
      fst (handleEvent getOperation sel outsOrder cfgOrder f data w) = False
      \<and> sent (snd (handleEvent getOperation sel outsOrder cfgOrder f data w))
          = sent w @ map (\<lambda>out. (out, data))
              (acceptedOuts getOperation f ?ws text data (rangeMap (taskConfigMaps f) cfgOrder))
      \<and> filterHandledTotal (snd (handleEvent getOperation sel outsOrder cfgOrder f data w))
          = filterHandledTotal w
            + int (length (acceptedOuts getOperation f ?ws text data
                             (rangeMap (taskConfigMaps f) cfgOrder)))
      \<and> filterDroppedTotal (snd (handleEvent getOperation sel outsOrder cfgOrder f data w))
          = filterDroppedTotal w
            + int (length (rejectedIDs getOperation ?ws text data
                             (rangeMap (taskConfigMaps f) cfgOrder)))"
  proof
    assume a: "dataText data = (text, True) \<and> (\<forall>k. sel k = SendOut)"
    then have "handleEvent getOperation sel outsOrder cfgOrder f data w
        = dispatchAll getOperation sel 0 f ?ws text (rangeMap (taskConfigMaps f) cfgOrder) data w"
      using assms(1) by (simp add: handleEvent_def)
    moreover from a have "\<forall>k. sel k = SendOut" ..
    ultimately show "fst (handleEvent getOperation sel outsOrder cfgOrder f data w) = False
      \<and> sent (snd (handleEvent getOperation sel outsOrder cfgOrder f data w))
          = sent w @ map (\<lambda>out. (out, data))
              (acceptedOuts getOperation f ?ws text data (rangeMap (taskConfigMaps f) cfgOrder))
      \<and> filterHandledTotal (snd (handleEvent getOperation sel outsOrder cfgOrder f data w))
          = filterHandledTotal w
            + int (length (acceptedOuts getOperation f ?ws text data
                             (rangeMap (taskConfigMaps f) cfgOrder)))
      \<and> filterDroppedTotal (snd (handleEvent getOperation sel outsOrder cfgOrder f data w))
          = filterDroppedTotal w
            + int (length (rejectedIDs getOperation ?ws text data
                             (rangeMap (taskConfigMaps f) cfgOrder)))"
      using dispatchAll_all_sent [of sel getOperation 0 f ?ws "text"
          "rangeMap (taskConfigMaps f) cfgOrder" data w]
      by simp
  qed
  have w3: "splitWords (MergeFilterConfig (ruleSet ''p'' True [[cond i op k]])
              (emptyFilters (ruleSet ''p'' True [[cond i op k]]) :: ('c, 't) Filters)) ''a,b,c''
            = [''a'', ''b'', ''c'']" if "i = 3 \<or> i = 4" for i op k
  proof -
    let ?g = "MergeFilterConfig (ruleSet ''p'' True [[cond i op k]])
              (emptyFilters (ruleSet ''p'' True [[cond i op k]]) :: ('c, 't) Filters)"
    have d: "Filters.Delimiter ?g = '',''"
      by (simp add: MergeFilterConfig_def emptyFilters_def ruleSet_def)
    from that have m: "filterMaxIndex ?g = i"
      by (auto simp: MergeFilterConfig_def emptyFilters_def ruleSet_def cond_def)
    from that have n: "int64 (i + 1) = i + 1"
      by (intro int64_id) auto
    from that have "SplitN ''a,b,c'' '','' (i + 1) = [''a'', ''b'', ''c'']"
      by (auto simp: SplitN_abc)
    then show ?thesis
      unfolding splitWords_def d m n .
  qed
  have i3: "splitWords (instanceOf (ruleSet ''p'' True [[cond i op k]]) c t :: ('c, 't) Filters)
              ''a,b,c'' = [''a'', ''b'', ''c'']" if "i = 3 \<or> i = 4" for i op k c t
    using w3 [OF that, of op k] by (simp add: instanceOf_splitWords)
  have ev: "handleEvent getOperation sel outsOrder [''p'']
              (instanceOf (ruleSet ''p'' True [[cond i op k]]) c t :: ('c, 't) Filters)
              (lineEvent ''a,b,c'') w
            = dispatchAll getOperation sel 0 (instanceOf (ruleSet ''p'' True [[cond i op k]]) c t)
                [''a'', ''b'', ''c''] ''a,b,c''
                [(''p'', ruleSet ''p'' True [[cond i op k]])] (lineEvent ''a,b,c'') w"
    if "i = 3 \<or> i = 4" for i op k c t
    using i3 [OF that, of op k c t]
    by (simp add: handleEvent_def dataText_def lineEvent_def instanceOf_split(1)
        instanceOf_fields rangeMap_def ruleSet_def)
  have h3: "Handle getOperation [''a'', ''b'', ''c''] ''a,b,c''
              (ruleSet ''p'' True [[cond 3 ''contains'' ''c'']]) e = Some e"
    if "getOperation ''contains'' = Some operationFunc" "operationFunc ''c'' ''c''"
    for operationFunc and e :: 'e
    using that by (simp add: Handle_def ruleSet_def cond_def checkCondition_def)
  have h4: "Handle getOperation [''a'', ''b'', ''c''] ''a,b,c''
              (ruleSet ''p'' True [[cond 4 op k]]) e = None"
    if "getOperation op \<noteq> None" for op k and e :: 'e
    using that by (auto simp: Handle_def ruleSet_def cond_def checkCondition_def)
  have ex3: "\<forall>cfg. cfg = ruleSet ''p'' True [[cond 3 ''contains'' ''c'']] \<longrightarrow>
      splitWords (MergeFilterConfig cfg (emptyFilters cfg :: ('c, 't) Filters)) ''a,b,c''
        = [''a'', ''b'', ''c'']
      \<and> (\<forall>operationFunc. getOperation ''contains'' = Some operationFunc \<and>
             operationFunc ''c'' ''c'' \<longrightarrow>
           Handle getOperation
             (splitWords (MergeFilterConfig cfg (emptyFilters cfg :: ('c, 't) Filters)) ''a,b,c'')
             ''a,b,c'' cfg event = Some event
           \<and> (\<forall>c t. sel 0 = SendOut \<longrightarrow>
                 handleEvent getOperation sel outsOrder [''p'']
                   (instanceOf cfg c t :: ('c, 't) Filters) (lineEvent ''a,b,c'') w
                 = (False, send c (lineEvent ''a,b,c'') w)))"
  proof (intro allI impI conjI)
    fix cfg assume c: "cfg = ruleSet ''p'' True [[cond 3 ''contains'' ''c'']]"
    show s: "splitWords (MergeFilterConfig cfg (emptyFilters cfg :: ('c, 't) Filters)) ''a,b,c''
        = [''a'', ''b'', ''c'']"
      unfolding c by (rule w3) simp
    fix operationFunc
    assume o: "getOperation ''contains'' = Some operationFunc \<and> operationFunc ''c'' ''c''"
    from o have o1: "getOperation ''contains'' = Some operationFunc"
      and o2: "operationFunc ''c'' ''c''" by simp_all
    show "Handle getOperation
         (splitWords (MergeFilterConfig cfg (emptyFilters cfg :: ('c, 't) Filters)) ''a,b,c'')
         ''a,b,c'' cfg event = Some event"
      unfolding s unfolding c by (rule h3 [OF o1 o2])
    fix c' :: 'c and t :: 't
    assume sl: "sel 0 = SendOut"
    have "Handle getOperation [''a'', ''b'', ''c''] ''a,b,c''
        (ruleSet ''p'' True [[cond 3 ''contains'' ''c'']]) (Event (lineEvent ''a,b,c''))
        = Some (Event (lineEvent ''a,b,c''))"
      by (rule h3 [OF o1 o2])
    with sl show "handleEvent getOperation sel outsOrder [''p'']
        (instanceOf cfg c' t :: ('c, 't) Filters) (lineEvent ''a,b,c'') w
        = (False, send c' (lineEvent ''a,b,c'') w)"
      unfolding c by (simp add: ev instanceOf_fields ruleSet_fields)
  qed
  have ex4: "\<forall>cfg op k. cfg = ruleSet ''p'' True [[cond 4 op k]] \<and> getOperation op \<noteq> None \<longrightarrow>
      splitWords (MergeFilterConfig cfg (emptyFilters cfg :: ('c, 't) Filters)) ''a,b,c''
        = [''a'', ''b'', ''c'']
      \<and> Handle getOperation
           (splitWords (MergeFilterConfig cfg (emptyFilters cfg :: ('c, 't) Filters)) ''a,b,c'')
           ''a,b,c'' cfg event = None
      \<and> (\<forall>c t. handleEvent getOperation sel outsOrder [''p'']
                   (instanceOf cfg c t :: ('c, 't) Filters) (lineEvent ''a,b,c'') w
                 = (False, dropped (instanceOf cfg c t) ''p'' w))"
  proof (intro allI impI conjI)
    fix cfg op k
    assume a: "cfg = ruleSet ''p'' True [[cond 4 op k]] \<and> getOperation op \<noteq> None"
    then have c: "cfg = ruleSet ''p'' True [[cond 4 op k]]" and o: "getOperation op \<noteq> None"
      by simp_all
    show s: "splitWords (MergeFilterConfig cfg (emptyFilters cfg :: ('c, 't) Filters)) ''a,b,c''
        = [''a'', ''b'', ''c'']"
      unfolding c by (rule w3) simp
    show "Handle getOperation
         (splitWords (MergeFilterConfig cfg (emptyFilters cfg :: ('c, 't) Filters)) ''a,b,c'')
         ''a,b,c'' cfg event = None"
      unfolding s unfolding c using o by (rule h4)
    fix c' :: 'c and t :: 't
    from o have "Handle getOperation [''a'', ''b'', ''c''] ''a,b,c''
        (ruleSet ''p'' True [[cond 4 op k]]) (Event (lineEvent ''a,b,c'')) = None"
      by (rule h4)
    then show "handleEvent getOperation sel outsOrder [''p'']
        (instanceOf cfg c' t :: ('c, 't) Filters) (lineEvent ''a,b,c'') w
        = (False, dropped (instanceOf cfg c' t) ''p'' w)"
      unfolding c by (simp add: ev)
  qed
  show ?thesis
    by (intro conjI bs uq ne len jn bl lst run ex3 ex4)
qed

theorem splitWords_bounded_witness:
  "Filters.Delimiter column3eq \<noteq> []
   \<and> 0 \<le> filterMaxIndex column3eq
   \<and> filterMaxIndex column3eq < 2 ^ 63
   \<and> length ''a,b,c,d,e'' < 2 ^ 63
   \<and> dataText (lineEvent ''a,b,c,d,e'') = (''a,b,c,d,e'', True)
   \<and> splitWords column3eq ''a,b,c,d,e'' = [''a'', ''b'', ''c'', ''d,e'']
   \<and> boundedSplit 4 '','' ''a,b,c,d,e'' [''a'', ''b'', ''c'', ''d,e'']
   \<and> Join (splitWords column3eq ''a,b,c,d,e'') '','' = ''a,b,c,d,e''
   \<and> sent (snd (handleEvent eqCatalog (\<lambda>k. SendOut) [''p''] [''p''] column3eq
                    (lineEvent ''a,b,c,d,e'') world0))
       = [(1, lineEvent ''a,b,c,d,e'')]
   \<and> filterDroppedTotal (snd (handleEvent eqCatalog (\<lambda>k. SendOut) [''p''] [''p''] column3eq
                    (lineEvent ''a,b,c,d,e'') world0)) = 0"
proof -
  let ?f = "column3eq"
  let ?t = "''a,b,c,d,e''"
  let ?cfg = "ruleSet ''p'' True [[cond 3 ''eq'' ''c'']]"
  have d: "Filters.Delimiter ?f = '',''"
    by (simp add: column3eq_def instanceOf_split ruleSet_def)
  have m: "filterMaxIndex ?f = 3"
    by (simp add: column3eq_def instanceOf_split MergeFilterConfig_def emptyFilters_def
        ruleSet_def cond_def)
  have l: "length ?t < 2 ^ 63"
    by simp
  have n: "int64 (3 + 1) = 4"
    by (simp add: int64_def)
  have w: "splitWords ?f ?t = [''a'', ''b'', ''c'', ''d,e'']"
    unfolding splitWords_def d m n by (rule SplitN_example)
  from d have d0: "Filters.Delimiter ?f \<noteq> []" by simp
  from m have m0: "0 \<le> filterMaxIndex ?f" and m1: "filterMaxIndex ?f < 2 ^ 63" by simp_all
  have dt: "dataText (lineEvent ?t) = (?t, True)"
    by (simp add: dataText_def lineEvent_def)
  have sl: "\<forall>k. (\<lambda>k. SendOut) k = SendOut" by simp
  note th = splitWords_bounded [OF d0 m0 m1 l, of "lineEvent ?t" "\<lambda>k. SendOut" eqCatalog
      "[''p'']" "[''p'']" world0]
  from th have "boundedSplit (nat (filterMaxIndex ?f + 1)) (Filters.Delimiter ?f) ?t (splitWords ?f ?t)"
    by (rule conjunct1)
  then have b: "boundedSplit 4 '','' ?t [''a'', ''b'', ''c'', ''d,e'']"
    unfolding d m w by simp
  have j0: "Join [''a'', ''b'', ''c'', ''d,e''] '','' = ?t"
    using b unfolding boundedSplit_def by (rule conjunct1 [OF conjunct2 [OF conjunct2]])
  then have j: "Join (splitWords ?f ?t) '','' = ?t"
    unfolding w .
  have r: "rangeMap (taskConfigMaps ?f) [''p''] = [(''p'', ?cfg)]"
    by (simp add: rangeMap_def column3eq_def instanceOf_fields ruleSet_fields)
  have h: "Handle eqCatalog [''a'', ''b'', ''c'', ''d,e''] ?t ?cfg (Event (lineEvent ?t))
      = Some (Event (lineEvent ?t))"
    by (simp add: Handle_def ruleSet_def cond_def checkCondition_def eqCatalog_def)
  have o: "Outs ?f ''p'' = Some 1"
    by (simp add: column3eq_def instanceOf_fields ruleSet_fields)
  have acc: "acceptedOuts eqCatalog ?f (splitWords ?f ?t) ?t (lineEvent ?t)
      (rangeMap (taskConfigMaps ?f) [''p'']) = [1]"
    unfolding w r by (simp add: acceptedOuts_def List.map_filter_def h o)
  have rej: "rejectedIDs eqCatalog (splitWords ?f ?t) ?t (lineEvent ?t)
      (rangeMap (taskConfigMaps ?f) [''p'']) = []"
    unfolding w r by (simp add: rejectedIDs_def h)
  note run = th [THEN conjunct2, THEN conjunct2, THEN conjunct2, THEN conjunct2,
      THEN conjunct2, THEN conjunct2, THEN conjunct2, THEN conjunct1, rule_format, OF conjI,
      OF dt sl]
  from run have "sent (snd (handleEvent eqCatalog (\<lambda>k. SendOut) [''p''] [''p''] ?f
                    (lineEvent ?t) world0))
       = sent world0 @ map (\<lambda>out. (out, lineEvent ?t))
           (acceptedOuts eqCatalog ?f (splitWords ?f ?t) ?t (lineEvent ?t)
              (rangeMap (taskConfigMaps ?f) [''p'']))"
    and "filterDroppedTotal (snd (handleEvent eqCatalog (\<lambda>k. SendOut) [''p''] [''p''] ?f
                    (lineEvent ?t) world0))
       = filterDroppedTotal world0
         + int (length (rejectedIDs eqCatalog (splitWords ?f ?t) ?t (lineEvent ?t)
                          (rangeMap (taskConfigMaps ?f) [''p''])))"
    by (rule conjunct1 [OF conjunct2], rule conjunct2 [OF conjunct2 [OF conjunct2]])
  then have s: "sent (snd (handleEvent eqCatalog (\<lambda>k. SendOut) [''p''] [''p''] ?f
                    (lineEvent ?t) world0)) = [(1, lineEvent ?t)]"
    and dr: "filterDroppedTotal (snd (handleEvent eqCatalog (\<lambda>k. SendOut) [''p''] [''p''] ?f
                    (lineEvent ?t) world0)) = 0"
    unfolding acc rej by (simp_all add: world0_def)
  show ?thesis
    by (intro conjI d0 m0 m1 l dt w b j s dr)
qed

end
